theory Spec2Isabelle
  imports Main "HOL-Library.AList" "HOL-Library.Multiset"
begin

section \<open>The data model of dagraph.py\<close>

text \<open>
  Keys are any hashable Python objects: the type \<open>'k\<close>, compared with HOL equality.
  The exceptions the code raises are values of \<open>error\<close>: the two messages of
  \<^verbatim>\<open>add_vertex\<close> and \<^verbatim>\<open>add_edge\<close> (they carry the offending key), the message of
  \<^verbatim>\<open>UniqueStack\<close>, and the built-in \<^verbatim>\<open>KeyError\<close> (a dictionary read of an absent key),
  \<^verbatim>\<open>IndexError\<close> (\<^verbatim>\<open>deque.pop\<close> on an empty deque) and \<^verbatim>\<open>RecursionError\<close>.
\<close>

datatype 'k error =
    AlreadyInGraph 'k
  | NotPresent 'k
  | RequiresUnique
  | KeyError 'k
  | IndexError
  | RecursionError

subsection \<open>UniqueStack\<close>

text \<open>
  The deque is a list whose head is the right end of the deque (the top of the stack):
  \<^verbatim>\<open>append\<close> is \<open>#\<close>, \<^verbatim>\<open>pop\<close> takes the head, and \<^verbatim>\<open>extend(iterable)\<close>, which appends
  the elements one after the other, leaves them reversed in front. Operations that mutate
  the object return the outcome together with the object after the call, so that the state
  left behind by a raise can be stated.
\<close>

record 'a UniqueStack =
  stack :: "'a list"
  stackset :: "'a set"

definition UniqueStack_init :: "'a list \<Rightarrow> 'a error + 'a UniqueStack" where
  "UniqueStack_init iterable =
     (let s0 = \<lparr>stack = [], stackset = {}\<rparr>;
          s1 = (if iterable \<noteq> []
                then s0\<lparr>stack := rev iterable @ stack s0,
                        stackset := stackset s0 \<union> set iterable\<rparr>
                else s0)
      in if length (stack s1) \<noteq> card (stackset s1) then Inl RequiresUnique else Inr s1)"

definition len_stack :: "'a UniqueStack \<Rightarrow> nat" where
  "len_stack s = length (stack s)"

definition contains_stack :: "'a UniqueStack \<Rightarrow> 'a \<Rightarrow> bool" where
  "contains_stack s k = (k \<in> stackset s)"

definition pop :: "'a UniqueStack \<Rightarrow> ('a error + 'a) \<times> 'a UniqueStack" where
  "pop s =
     (case stack s of
        [] \<Rightarrow> (Inl IndexError, s)
      | to_return # rest \<Rightarrow>
          (Inr to_return, s\<lparr>stack := rest, stackset := stackset s - {to_return}\<rparr>))"

definition push :: "'a \<Rightarrow> 'a UniqueStack \<Rightarrow> ('a error + unit) \<times> 'a UniqueStack" where
  "push item s =
     (if item \<in> stackset s then (Inl RequiresUnique, s)
      else (Inr (), s\<lparr>stack := item # stack s, stackset := insert item (stackset s)\<rparr>))"

definition peek :: "'a UniqueStack \<Rightarrow> 'a error + 'a" where
  "peek s = (case stack s of [] \<Rightarrow> Inl IndexError | x # _ \<Rightarrow> Inr x)"

subsection \<open>DAGraphVertex and DAGraph\<close>

text \<open>
  The dictionary \<^verbatim>\<open>vertices\<close> keeps insertion order (it is the default root order of
  \<^verbatim>\<open>tarjans\<close>), so it is an association list, new entries at the end. The vertex objects
  live in that list; \<^verbatim>\<open>add_edge_to\<close> mutates two of them (possibly the same one), which
  is an update of the entries under the two dictionary keys.
\<close>

record ('k, 'v) DAGraphVertex =
  key :: 'k
  vvalue :: 'v
  successors :: "'k set"
  predecessors :: "'k set"

record ('k, 'v) DAGraph =
  direct_cyclic :: bool
  vertices :: "('k \<times> ('k, 'v) DAGraphVertex) list"

definition DAGraphVertex_init :: "'k \<Rightarrow> 'v \<Rightarrow> ('k, 'v) DAGraphVertex" where
  "DAGraphVertex_init k v = \<lparr>key = k, vvalue = v, successors = {}, predecessors = {}\<rparr>"

definition DAGraph_init :: "('k, 'v) DAGraph" where
  "DAGraph_init = \<lparr>direct_cyclic = False, vertices = []\<rparr>"

definition len_graph :: "('k, 'v) DAGraph \<Rightarrow> nat" where
  "len_graph g = length (vertices g)"

definition contains_graph :: "('k, 'v) DAGraph \<Rightarrow> 'k \<Rightarrow> bool" where
  "contains_graph g k = (map_of (vertices g) k \<noteq> None)"

definition getitem :: "('k, 'v) DAGraph \<Rightarrow> 'k \<Rightarrow> 'k error + 'v" where
  "getitem g k =
     (case map_of (vertices g) k of None \<Rightarrow> Inl (KeyError k) | Some vx \<Rightarrow> Inr (vvalue vx))"

definition items :: "('k, 'v) DAGraph \<Rightarrow> 'k list" where
  "items g = map fst (vertices g)"

definition add_vertex ::
  "'k \<Rightarrow> 'v \<Rightarrow> ('k, 'v) DAGraph \<Rightarrow> ('k error + unit) \<times> ('k, 'v) DAGraph" where
  "add_vertex k v g =
     (if contains_graph g k then (Inl (AlreadyInGraph k), g)
      else (Inr (), g\<lparr>vertices := vertices g @ [(k, DAGraphVertex_init k v)]\<rparr>))"

definition setitem ::
  "'k \<Rightarrow> 'v \<Rightarrow> ('k, 'v) DAGraph \<Rightarrow> ('k error + unit) \<times> ('k, 'v) DAGraph" where
  "setitem k v g = add_vertex k v g"

text \<open>
  \<^verbatim>\<open>self.vertices[src].add_edge_to(self.vertices[dst])\<close>: \<open>self\<close> and \<open>other\<close> are the
  objects stored under \<open>src\<close> and \<open>dst\<close>; the keys written into the sets are read from the
  objects' \<^verbatim>\<open>key\<close> fields.
\<close>

definition add_edge_to ::
  "'k \<Rightarrow> 'k \<Rightarrow> ('k \<times> ('k, 'v) DAGraphVertex) list \<Rightarrow> ('k \<times> ('k, 'v) DAGraphVertex) list" where
  "add_edge_to src dst vs =
     (case (map_of vs src, map_of vs dst) of
        (Some self, Some other) \<Rightarrow>
          AList.map_entry dst (\<lambda>vx. vx\<lparr>predecessors := insert (key self) (predecessors vx)\<rparr>)
            (AList.map_entry src (\<lambda>vx. vx\<lparr>successors := insert (key other) (successors vx)\<rparr>) vs)
      | _ \<Rightarrow> vs)"

definition add_edge ::
  "'k \<Rightarrow> 'k \<Rightarrow> ('k, 'v) DAGraph \<Rightarrow> ('k error + unit) \<times> ('k, 'v) DAGraph" where
  "add_edge dst src g =
     (if \<not> contains_graph g src then (Inl (NotPresent src), g)
      else if \<not> contains_graph g dst then (Inl (NotPresent dst), g)
      else let g1 = (if src = dst then g\<lparr>direct_cyclic := True\<rparr> else g)
           in (Inr (), g1\<lparr>vertices := add_edge_to src dst (vertices g1)\<rparr>))"

text \<open>
  An argument of \<^verbatim>\<open>add_edges\<close> is either a key object or a collection that is not a key
  (a list of keys). \<^verbatim>\<open>isinstance(src, Iterable)\<close> holds of every collection and also of
  the key objects that Python can iterate: a \<^verbatim>\<open>str\<close> (its elements are its characters,
  each a one-character \<^verbatim>\<open>str\<close>), a tuple, a frozenset. The parameter \<open>iterable_key\<close>
  gives, for a key object, \<open>Some\<close> of the elements iterating it yields, and \<open>None\<close> when
  it is not an \<^verbatim>\<open>Iterable\<close> (an \<^verbatim>\<open>int\<close>). \<open>str_iterable\<close> is that function for
  \<^verbatim>\<open>str\<close> keys.
\<close>

datatype 'k arg = Key 'k | Coll "'k list"

definition str_iterable :: "string \<Rightarrow> string list option" where
  "str_iterable s = Some (map (\<lambda>c. [c]) s)"

fun add_edge_each ::
  "'k \<Rightarrow> 'k list \<Rightarrow> ('k, 'v) DAGraph \<Rightarrow> ('k error + unit) \<times> ('k, 'v) DAGraph" where
  "add_edge_each dst [] g = (Inr (), g)"
| "add_edge_each dst (e # es) g =
     (case add_edge dst e g of
        (Inl err, g') \<Rightarrow> (Inl err, g')
      | (Inr _, g') \<Rightarrow> add_edge_each dst es g')"

fun add_edges ::
  "('k \<Rightarrow> 'k list option) \<Rightarrow> 'k \<Rightarrow> 'k arg list \<Rightarrow> ('k, 'v) DAGraph
     \<Rightarrow> ('k error + unit) \<times> ('k, 'v) DAGraph" where
  "add_edges iterable_key dst [] g = (Inr (), g)"
| "add_edges iterable_key dst (src # srcs) g =
     (case (case src of
              Coll es \<Rightarrow> add_edge_each dst es g
            | Key k \<Rightarrow>
                (case iterable_key k of
                   Some es \<Rightarrow> add_edge_each dst es g
                 | None \<Rightarrow> add_edge dst k g)) of
        (Inl err, g') \<Rightarrow> (Inl err, g')
      | (Inr _, g') \<Rightarrow> add_edges iterable_key dst srcs g')"

subsection \<open>Traversal queries\<close>

text \<open>
  A Python \<^verbatim>\<open>set\<close> is iterated in an order the program does not control: the parameter
  \<open>iter\<close> gives, for a set, the list that \<^verbatim>\<open>list(s)\<close> and \<^verbatim>\<open>for w in s\<close> yield.
  The theorems hold for every such order (\<open>set_order\<close>).
\<close>

definition set_order :: "('k set \<Rightarrow> 'k list) \<Rightarrow> bool" where
  "set_order iter = (\<forall>S. finite S \<longrightarrow> set (iter S) = S \<and> distinct (iter S))"

definition get_direct_successors ::
  "('k set \<Rightarrow> 'k list) \<Rightarrow> ('k, 'v) DAGraph \<Rightarrow> 'k \<Rightarrow> 'k error + 'k list" where
  "get_direct_successors iter g k =
     (case map_of (vertices g) k of
        None \<Rightarrow> Inl (KeyError k)
      | Some vx \<Rightarrow> Inr (iter (successors vx)))"

definition get_direct_predecessors ::
  "('k set \<Rightarrow> 'k list) \<Rightarrow> ('k, 'v) DAGraph \<Rightarrow> 'k \<Rightarrow> 'k error + 'k list" where
  "get_direct_predecessors iter g k =
     (case map_of (vertices g) k of
        None \<Rightarrow> Inl (KeyError k)
      | Some vx \<Rightarrow> Inr (iter (predecessors vx)))"

text \<open>
  The \<^verbatim>\<open>while stack:\<close> loop of \<^verbatim>\<open>get_all_successors\<close> and \<^verbatim>\<open>get_all_predecessors\<close>
  (the two bodies differ only in the adjacency field they read, the parameter \<open>adj\<close>).
  The work list is a Python list used as a stack; as for the deque, its top is the head.
  The loop may run forever, so it is a partial function into \<open>option\<close>: \<open>None\<close> is
  "does not return".
\<close>

partial_function (option) work_loop ::
  "(('k, 'v) DAGraphVertex \<Rightarrow> 'k set) \<Rightarrow> ('k set \<Rightarrow> 'k list)
     \<Rightarrow> ('k \<times> ('k, 'v) DAGraphVertex) list \<Rightarrow> 'k list \<Rightarrow> 'k set
     \<Rightarrow> ('k error + 'k set) option" where
  "work_loop adj iter vs stk acc =
     (case stk of
        [] \<Rightarrow> Some (Inr acc)
      | elem # rest \<Rightarrow>
          (case map_of vs elem of
             None \<Rightarrow> Some (Inl (KeyError elem))
           | Some vx \<Rightarrow> work_loop adj iter vs (rev (iter (adj vx)) @ rest) (insert elem acc)))"

declare work_loop.simps [code]

definition get_all ::
  "(('k, 'v) DAGraphVertex \<Rightarrow> 'k set) \<Rightarrow> ('k set \<Rightarrow> 'k list) \<Rightarrow> ('k, 'v) DAGraph \<Rightarrow> 'k
     \<Rightarrow> ('k error + 'k list) option" where
  "get_all adj iter g k =
     (case map_of (vertices g) k of
        None \<Rightarrow> Some (Inl (KeyError k))
      | Some vx \<Rightarrow>
          (case work_loop adj iter (vertices g) (rev (iter (adj vx))) {} of
             None \<Rightarrow> None
           | Some (Inl err) \<Rightarrow> Some (Inl err)
           | Some (Inr acc) \<Rightarrow> Some (Inr (iter acc))))"

definition get_all_successors ::
  "('k set \<Rightarrow> 'k list) \<Rightarrow> ('k, 'v) DAGraph \<Rightarrow> 'k \<Rightarrow> ('k error + 'k list) option" where
  "get_all_successors = get_all successors"

definition get_all_predecessors ::
  "('k set \<Rightarrow> 'k list) \<Rightarrow> ('k, 'v) DAGraph \<Rightarrow> 'k \<Rightarrow> ('k error + 'k list) option" where
  "get_all_predecessors = get_all predecessors"

subsection \<open>Tarjan's algorithm\<close>

text \<open>
  The variables \<^verbatim>\<open>node_st\<close>, \<^verbatim>\<open>idx\<close>, \<^verbatim>\<open>stack\<close> and \<^verbatim>\<open>scc_list\<close> that the closure
  \<^verbatim>\<open>strongconnect\<close> shares with \<^verbatim>\<open>tarjans\<close> are the fields of \<open>tstate\<close> (\<open>tstack\<close> is
  \<^verbatim>\<open>stack\<close>, whose name the deque of \<open>UniqueStack\<close> has taken).
\<close>

record 'k tstate =
  node_st :: "'k \<rightharpoonup> nat \<times> nat"
  idx :: nat
  tstack :: "'k UniqueStack"
  scc_list :: "'k list list"

text \<open>The loop \<^verbatim>\<open>while True: w = stack.pop(); scc.append(w); if w == v: break\<close>.\<close>

function pop_scc ::
  "'k \<Rightarrow> 'k UniqueStack \<Rightarrow> 'k list \<Rightarrow> 'k error + 'k list \<times> 'k UniqueStack" where
  "pop_scc v s scc =
     (case pop s of
        (Inl err, _) \<Rightarrow> Inl err
      | (Inr w, s') \<Rightarrow>
          if w = v then Inr (scc @ [w], s') else pop_scc v s' (scc @ [w]))"
  by pat_completeness auto
termination
  by (relation "measure (\<lambda>(v, s, scc). length (stack s))")
     (auto simp: pop_def split: list.splits)

declare pop_scc.simps [simp del]

text \<open>
  \<^verbatim>\<open>strongconnect\<close> calls itself once per vertex of the path it walks, and Python raises
  \<^verbatim>\<open>RecursionError\<close> when the interpreter's recursion limit is reached (the test
  \<^verbatim>\<open>test_reaching_recursion_depth\<close> expects it). The first argument is the number of
  nested activations of \<^verbatim>\<open>strongconnect\<close> that the limit still allows. \<open>visit\<close> is the
  loop \<^verbatim>\<open>for w in self.vertices[v].successors\<close> on the successors still to come.
\<close>

fun strongconnect ::
  "nat \<Rightarrow> ('k set \<Rightarrow> 'k list) \<Rightarrow> ('k \<times> ('k, 'v) DAGraphVertex) list \<Rightarrow> 'k \<Rightarrow> 'k tstate
     \<Rightarrow> 'k error + 'k tstate"
and visit ::
  "nat \<Rightarrow> ('k set \<Rightarrow> 'k list) \<Rightarrow> ('k \<times> ('k, 'v) DAGraphVertex) list \<Rightarrow> 'k \<Rightarrow> 'k list
     \<Rightarrow> 'k tstate \<Rightarrow> 'k error + 'k tstate" where
  "strongconnect 0 iter vs v st = Inl RecursionError"
| "strongconnect (Suc d) iter vs v st =
     (let st1 = st\<lparr>node_st := (node_st st)(v \<mapsto> (idx st, idx st))\<rparr>;
          st2 = st1\<lparr>idx := idx st1 + 1\<rparr>
      in case push v (tstack st2) of
           (Inl err, _) \<Rightarrow> Inl err
         | (Inr _, s) \<Rightarrow>
             (case map_of vs v of
                None \<Rightarrow> Inl (KeyError v)
              | Some vx \<Rightarrow>
                  (case visit d iter vs v (iter (successors vx)) (st2\<lparr>tstack := s\<rparr>) of
                     Inl err \<Rightarrow> Inl err
                   | Inr st3 \<Rightarrow>
                       (case node_st st3 v of
                          None \<Rightarrow> Inl (KeyError v)
                        | Some (v_idx, v_ll) \<Rightarrow>
                            if v_idx = v_ll
                            then (case pop_scc v (tstack st3) [] of
                                    Inl err \<Rightarrow> Inl err
                                  | Inr (scc, s') \<Rightarrow>
                                      Inr (st3\<lparr>tstack := s',
                                               scc_list := scc_list st3 @ [scc]\<rparr>))
                            else Inr st3))))"
| "visit d iter vs v [] st = Inr st"
| "visit d iter vs v (w # ws) st =
     (if w \<notin> dom (node_st st)
      then (case strongconnect d iter vs w st of
              Inl err \<Rightarrow> Inl err
            | Inr st' \<Rightarrow>
                (case node_st st' v of
                   None \<Rightarrow> Inl (KeyError v)
                 | Some (v_idx, v_ll) \<Rightarrow>
                     (case node_st st' w of
                        None \<Rightarrow> Inl (KeyError w)
                      | Some (w_idx, w_ll) \<Rightarrow>
                          visit d iter vs v ws
                            (st'\<lparr>node_st := (node_st st')(v \<mapsto> (v_idx, min v_ll w_ll))\<rparr>))))
      else if contains_stack (tstack st) w
      then (case node_st st v of
              None \<Rightarrow> Inl (KeyError v)
            | Some (v_idx, v_ll) \<Rightarrow>
                (case node_st st w of
                   None \<Rightarrow> Inl (KeyError w)
                 | Some (w_idx, w_ll) \<Rightarrow>
                     visit d iter vs v ws
                       (st\<lparr>node_st := (node_st st)(v \<mapsto> (v_idx, min v_ll w_idx))\<rparr>)))
      else visit d iter vs v ws st)"

text \<open>The loop \<^verbatim>\<open>for e in elems: if not e in node_st: strongconnect(e)\<close>.\<close>

fun roots ::
  "nat \<Rightarrow> ('k set \<Rightarrow> 'k list) \<Rightarrow> ('k \<times> ('k, 'v) DAGraphVertex) list \<Rightarrow> 'k list \<Rightarrow> 'k tstate
     \<Rightarrow> 'k error + 'k tstate" where
  "roots d iter vs [] st = Inr st"
| "roots d iter vs (e # es) st =
     (if e \<notin> dom (node_st st)
      then (case strongconnect d iter vs e st of
              Inl err \<Rightarrow> Inl err
            | Inr st' \<Rightarrow> roots d iter vs es st')
      else roots d iter vs es st)"

text \<open>
  \<^verbatim>\<open>random.shuffle(elems)\<close> permutes the list in place; the parameter \<open>shuffle\<close> is
  the permutation the generator produces in this call.
\<close>

definition tarjans ::
  "nat \<Rightarrow> ('k set \<Rightarrow> 'k list) \<Rightarrow> ('k list \<Rightarrow> 'k list) \<Rightarrow> bool \<Rightarrow> ('k, 'v) DAGraph
     \<Rightarrow> 'k error + 'k list list" where
  "tarjans d iter shuffle use_rng g =
     (case UniqueStack_init [] of
        Inl err \<Rightarrow> Inl err
      | Inr s \<Rightarrow>
          (let st0 = \<lparr>node_st = Map.empty, idx = 0, tstack = s, scc_list = []\<rparr>;
               elems = map fst (vertices g);
               elems' = (if use_rng then shuffle elems else elems)
           in case roots d iter (vertices g) elems' st0 of
                Inl err \<Rightarrow> Inl err
              | Inr st \<Rightarrow> Inr (scc_list st)))"

definition is_cyclic ::
  "nat \<Rightarrow> ('k set \<Rightarrow> 'k list) \<Rightarrow> ('k list \<Rightarrow> 'k list) \<Rightarrow> bool \<Rightarrow> ('k, 'v) DAGraph
     \<Rightarrow> 'k error + bool" where
  "is_cyclic d iter shuffle use_rng g =
     (if direct_cyclic g then Inr True
      else (case tarjans d iter shuffle use_rng g of
              Inl err \<Rightarrow> Inl err
            | Inr sccs \<Rightarrow> Inr (length sccs \<noteq> len_graph g)))"

subsection \<open>Well-formed graphs\<close>

text \<open>
  \<open>succs vs k\<close> and \<open>preds vs k\<close> are the adjacency sets of the vertex stored under
  \<open>k\<close> (empty when there is none). \<open>wf_graph\<close> collects what every graph built through
  the interface satisfies: the dictionary keys are distinct, each vertex carries its own
  key, the adjacency sets are finite sets of present keys, they mirror each other, and
  the flag \<^verbatim>\<open>direct_cyclic\<close> is set exactly when some vertex is its own successor.
\<close>

definition succs :: "('k \<times> ('k, 'v) DAGraphVertex) list \<Rightarrow> 'k \<Rightarrow> 'k set" where
  "succs vs k = (case map_of vs k of None \<Rightarrow> {} | Some vx \<Rightarrow> successors vx)"

definition preds :: "('k \<times> ('k, 'v) DAGraphVertex) list \<Rightarrow> 'k \<Rightarrow> 'k set" where
  "preds vs k = (case map_of vs k of None \<Rightarrow> {} | Some vx \<Rightarrow> predecessors vx)"

definition wf_vertices :: "('k \<times> ('k, 'v) DAGraphVertex) list \<Rightarrow> bool" where
  "wf_vertices vs =
     (distinct (map fst vs) \<and>
      (\<forall>k vx. map_of vs k = Some vx \<longrightarrow>
         key vx = k \<and> finite (successors vx) \<and> finite (predecessors vx) \<and>
         successors vx \<subseteq> fst ` set vs \<and> predecessors vx \<subseteq> fst ` set vs) \<and>
      (\<forall>a b. b \<in> succs vs a \<longleftrightarrow> a \<in> preds vs b))"

definition wf_graph :: "('k, 'v) DAGraph \<Rightarrow> bool" where
  "wf_graph g =
     (wf_vertices (vertices g) \<and> (direct_cyclic g \<longleftrightarrow> (\<exists>k. k \<in> succs (vertices g) k)))"

text \<open>The graphs a caller can build, starting from \<^verbatim>\<open>DAGraph()\<close>; a call that raises
  leaves a graph behind too.\<close>

inductive reachable :: "('k \<Rightarrow> 'k list option) \<Rightarrow> ('k, 'v) DAGraph \<Rightarrow> bool"
  for iterable_key :: "'k \<Rightarrow> 'k list option" where
  r_init: "reachable iterable_key DAGraph_init"
| r_add_vertex: "reachable iterable_key g \<Longrightarrow> reachable iterable_key (snd (add_vertex k v g))"
| r_setitem: "reachable iterable_key g \<Longrightarrow> reachable iterable_key (snd (setitem k v g))"
| r_add_edge: "reachable iterable_key g \<Longrightarrow> reachable iterable_key (snd (add_edge dst src g))"
| r_add_edges:
    "reachable iterable_key g \<Longrightarrow> reachable iterable_key (snd (add_edges iterable_key dst srcs g))"

text \<open>The invariant of \<^verbatim>\<open>UniqueStack\<close>.\<close>

definition stack_inv :: "'a UniqueStack \<Rightarrow> bool" where
  "stack_inv s = (stackset s = set (stack s) \<and> distinct (stack s))"

subsection \<open>Auxiliary definitions for the statements\<close>

text \<open>The keys an argument of \<^verbatim>\<open>add_edges\<close> stands for, in the order the two loops
  reach them.\<close>

definition arg_elems :: "('k \<Rightarrow> 'k list option) \<Rightarrow> 'k arg \<Rightarrow> 'k list" where
  "arg_elems iterable_key a =
     (case a of Coll es \<Rightarrow> es | Key k \<Rightarrow> (case iterable_key k of Some es \<Rightarrow> es | None \<Rightarrow> [k]))"

text \<open>A graph with the vertices 1 and 2 and no edge.\<close>

definition graph12 :: "(nat, unit) DAGraph" where
  "graph12 = snd (add_vertex 2 () (snd (add_vertex 1 () DAGraph_init)))"

text \<open>A graph with the \<^verbatim>\<open>str\<close> keys \<^verbatim>\<open>"ab"\<close> and \<^verbatim>\<open>"c"\<close> and no edge.\<close>

definition graph_ab_c :: "(string, unit) DAGraph" where
  "graph_ab_c = snd (add_vertex ''c'' () (snd (add_vertex ''ab'' () DAGraph_init)))"

text \<open>
  The adjacency relation the work list follows (\<open>adj\<close> is the field read), the edge relation
  of a graph (\<open>(a, b)\<close> when \<open>b\<close> is a successor of \<open>a\<close>), and "a cycle can be reached
  from \<open>k\<close>".
\<close>

definition adjs ::
  "(('k, 'v) DAGraphVertex \<Rightarrow> 'k set) \<Rightarrow> ('k \<times> ('k, 'v) DAGraphVertex) list \<Rightarrow> 'k \<Rightarrow> 'k set" where
  "adjs adj vs k = (case map_of vs k of None \<Rightarrow> {} | Some vx \<Rightarrow> adj vx)"

definition adj_rel ::
  "(('k, 'v) DAGraphVertex \<Rightarrow> 'k set) \<Rightarrow> ('k \<times> ('k, 'v) DAGraphVertex) list \<Rightarrow> ('k \<times> 'k) set" where
  "adj_rel adj vs = {(a, b). b \<in> adjs adj vs a}"

definition edges :: "('k, 'v) DAGraph \<Rightarrow> ('k \<times> 'k) set" where
  "edges g = {(a, b). b \<in> succs (vertices g) a}"

definition cycle_from :: "('k \<times> 'k) set \<Rightarrow> 'k \<Rightarrow> bool" where
  "cycle_from r k = (\<exists>c. (k, c) \<in> r\<^sup>* \<and> (c, c) \<in> r\<^sup>+)"

text \<open>A vertex with a self-loop; the cycle 1 \<open>\<rightarrow>\<close> 2 \<open>\<rightarrow>\<close> 1; the chain 1 \<open>\<rightarrow>\<close> 2.\<close>

definition graph_loop :: "(nat, unit) DAGraph" where
  "graph_loop = snd (add_edge 1 1 (snd (add_vertex 1 () DAGraph_init)))"

definition graph_cycle2 :: "(nat, unit) DAGraph" where
  "graph_cycle2 = snd (add_edge 1 2 (snd (add_edge 2 1 graph12)))"

definition graph_chain2 :: "(nat, unit) DAGraph" where
  "graph_chain2 = snd (add_edge 2 1 graph12)"

subsection \<open>Auxiliary definitions for Tarjan's algorithm\<close>

text \<open>
  The successor relation of a vertex dictionary, the strongly connected component of a
  vertex, and the set of components of a graph.
\<close>

definition succ_rel :: "('k \<times> ('k, 'v) DAGraphVertex) list \<Rightarrow> ('k \<times> 'k) set" where
  "succ_rel vs = {(a, b). b \<in> succs vs a}"

definition scc_of :: "('k \<times> 'k) set \<Rightarrow> 'k \<Rightarrow> 'k set" where
  "scc_of r v = {u. (v, u) \<in> r\<^sup>* \<and> (u, v) \<in> r\<^sup>*}"

definition sccs :: "('k, 'v) DAGraph \<Rightarrow> 'k set set" where
  "sccs g = scc_of (edges g) ` set (items g)"

text \<open>
  Readings of the state: the visited vertices (the keys of \<^verbatim>\<open>node_st\<close>), the index and
  the low-link of a vertex, the stack as a list (top first), and the vertices of the
  components found so far.
\<close>

definition visited :: "'k tstate \<Rightarrow> 'k set" where
  "visited st = dom (node_st st)"

definition num :: "'k tstate \<Rightarrow> 'k \<Rightarrow> nat" where
  "num st v = (case node_st st v of None \<Rightarrow> 0 | Some (i, l) \<Rightarrow> i)"

definition low :: "'k tstate \<Rightarrow> 'k \<Rightarrow> nat" where
  "low st v = (case node_st st v of None \<Rightarrow> 0 | Some (i, l) \<Rightarrow> l)"

definition stack_of :: "'k tstate \<Rightarrow> 'k list" where
  "stack_of st = stack (tstack st)"

definition closed :: "'k tstate \<Rightarrow> 'k set" where
  "closed st = set (concat (scc_list st))"

text \<open>The state after the first three statements of \<^verbatim>\<open>strongconnect(v)\<close>.\<close>

definition enter :: "'k \<Rightarrow> 'k tstate \<Rightarrow> 'k tstate" where
  "enter v st =
     st\<lparr>node_st := (node_st st)(v \<mapsto> (idx st, idx st)),
        idx := idx st + 1,
        tstack := snd (push v (tstack st))\<rparr>"

text \<open>The statements of \<^verbatim>\<open>strongconnect(v)\<close> after the loop.\<close>

definition leave :: "'k \<Rightarrow> 'k tstate \<Rightarrow> 'k error + 'k tstate" where
  "leave v st =
     (case node_st st v of
        None \<Rightarrow> Inl (KeyError v)
      | Some (v_idx, v_ll) \<Rightarrow>
          if v_idx = v_ll
          then (case pop_scc v (tstack st) [] of
                  Inl err \<Rightarrow> Inl err
                | Inr (scc, s') \<Rightarrow> Inr (st\<lparr>tstack := s', scc_list := scc_list st @ [scc]\<rparr>))
          else Inr st)"

text \<open>The assignment \<^verbatim>\<open>node_st[v] = (v_idx, min(v_ll, m))\<close>.\<close>

definition lower :: "'k \<Rightarrow> nat \<Rightarrow> 'k tstate \<Rightarrow> 'k tstate" where
  "lower v m st = st\<lparr>node_st := (node_st st)(v \<mapsto> (num st v, min (low st v) m))\<rparr>"

text \<open>
  The invariant of the state between two steps of the walk. \<open>G\<close> is the set of vertices
  whose activation of \<^verbatim>\<open>strongconnect\<close> is still running (they are on the stack): the
  stack and the finished components share the visited vertices between them; indices are
  below the counter; no edge leaves the finished components; every finished component is
  a strongly connected component; every stack vertex reaches a running vertex; every
  visited vertex that is not running has all its successors visited.
\<close>

definition tinv :: "('k \<times> ('k, 'v) DAGraphVertex) list \<Rightarrow> 'k set \<Rightarrow> 'k tstate \<Rightarrow> bool" where
  "tinv vs G st =
     ((stack_inv (tstack st)) \<and>
      (visited st = set (stack_of st) \<union> closed st) \<and>
      (set (stack_of st) \<inter> closed st = {}) \<and>
      (visited st \<subseteq> fst ` set vs) \<and>
      (\<forall>x\<in>visited st. num st x < idx st) \<and>
      (\<forall>a\<in>closed st. succs vs a \<subseteq> closed st) \<and>
      (\<forall>c\<in>set (scc_list st). \<exists>u. set c = scc_of (succ_rel vs) u) \<and>
      (distinct (concat (scc_list st))) \<and>
      (G \<subseteq> set (stack_of st)) \<and>
      (\<forall>y\<in>set (stack_of st). \<exists>g\<in>G. (y, g) \<in> (succ_rel vs)\<^sup>*) \<and>
      (\<forall>a\<in>visited st - G. succs vs a \<subseteq> visited st))"

text \<open>
  What a returning call \<^verbatim>\<open>strongconnect(v)\<close> from \<open>st\<close> to \<open>st'\<close> establishes: the
  entries of the vertices visited before are untouched, the new vertices have indices
  from the old counter on, and the stack has grown by a segment \<open>new\<close> of new vertices:
  either it is empty (\<open>v\<close> closed its component), or it holds \<open>v\<close> and vertices
  reachable from \<open>v\<close>, the low-link of \<open>v\<close> is the index of an older stack vertex that
  \<open>v\<close> reaches, and it bounds the index of every older stack vertex that the segment
  has an edge to.
\<close>

definition tpost :: "('k \<times> ('k, 'v) DAGraphVertex) list \<Rightarrow> 'k set \<Rightarrow> 'k \<Rightarrow> 'k tstate \<Rightarrow> 'k tstate \<Rightarrow> bool" where
  "tpost vs G v st st' =
     ((tinv vs G st') \<and>
      (\<forall>x\<in>visited st. node_st st' x = node_st st x) \<and>
      (visited st \<subseteq> visited st') \<and>
      (v \<in> visited st') \<and>
      (\<forall>x\<in>visited st' - visited st. idx st \<le> num st' x) \<and>
      (\<exists>new. stack_of st' = new @ stack_of st \<and> set new \<inter> visited st = {} \<and>
         (if new = [] then low st' v = num st' v
          else v \<in> set new \<and> (\<forall>y\<in>set new. (v, y) \<in> (succ_rel vs)\<^sup>*) \<and>
               (\<exists>x\<in>set (stack_of st). num st' x = low st' v \<and> (v, x) \<in> (succ_rel vs)\<^sup>*) \<and>
               (\<forall>y\<in>set new. \<forall>z\<in>set (stack_of st). z \<in> succs vs y \<longrightarrow> low st' v \<le> num st' z))))"

text \<open>
  The invariant of the loop over the successors of \<open>v\<close>, in the activation entered from
  \<open>st0\<close>; \<open>P\<close> is the set of successors already handled.
\<close>

definition loop_inv :: "('k \<times> ('k, 'v) DAGraphVertex) list \<Rightarrow> 'k set \<Rightarrow> 'k \<Rightarrow> 'k tstate \<Rightarrow> 'k set \<Rightarrow> 'k tstate \<Rightarrow> bool" where
  "loop_inv vs G v st0 P st =
     ((tinv vs (insert v G) st) \<and>
      (v \<in> fst ` set vs) \<and>
      (\<forall>x\<in>visited st0. node_st st x = node_st st0 x) \<and>
      (visited st0 \<subseteq> visited st) \<and>
      (v \<notin> visited st0) \<and>
      (v \<in> visited st) \<and>
      (\<forall>x\<in>visited st - visited st0. idx st0 \<le> num st x) \<and>
      (\<forall>x\<in>visited st0. num st0 x < idx st0) \<and>
      (low st v \<le> num st v) \<and>
      (\<exists>new. stack_of st = new @ v # stack_of st0 \<and> set new \<inter> visited st0 = {} \<and>
         (\<forall>y\<in>set new. (v, y) \<in> (succ_rel vs)\<^sup>* \<and> num st v < num st y) \<and>
         (\<forall>y\<in>set new. \<forall>z\<in>set (stack_of st0). z \<in> succs vs y \<longrightarrow> low st v \<le> num st z)) \<and>
      (\<exists>x\<in>insert v (set (stack_of st0)). num st x = low st v \<and> (v, x) \<in> (succ_rel vs)\<^sup>*) \<and>
      (\<forall>w\<in>P. w \<in> visited st \<and> (w \<in> set (stack_of st0) \<longrightarrow> low st v \<le> num st w)) \<and>
      (G \<subseteq> set (stack_of st0)) \<and>
      (\<forall>y\<in>set (stack_of st0). \<exists>g\<in>G. (y, g) \<in> (succ_rel vs)\<^sup>*) \<and>
      (set (stack_of st0) \<subseteq> visited st0))"

text \<open>The chain 2 \<open>\<rightarrow>\<close> 1 \<open>\<rightarrow>\<close> 0, built as in \<^verbatim>\<open>test_reaching_recursion_depth\<close>.\<close>

definition graph_chain3 :: "(nat, unit) DAGraph" where
  "graph_chain3 =
     snd (add_edge 1 2 (snd (add_edge 0 1
       (snd (add_vertex 2 () (snd (add_vertex 1 () (snd (add_vertex 0 () DAGraph_init)))))))))"

section \<open>UniqueStack\<close>

lemma UniqueStack_init_Inr:
  "UniqueStack_init xs = Inr s \<Longrightarrow> stack s = rev xs \<and> stackset s = set xs \<and> distinct xs"
  by (auto simp: UniqueStack_init_def Let_def card_distinct split: if_splits)

lemma UniqueStack_init_distinct:
  "distinct xs \<Longrightarrow> UniqueStack_init xs = Inr \<lparr>stack = rev xs, stackset = set xs\<rparr>"
  by (auto simp: UniqueStack_init_def Let_def distinct_card)

lemma UniqueStack_init_repeats: "\<not> distinct xs \<Longrightarrow> UniqueStack_init xs = Inl RequiresUnique"
proof -
  assume nd: "\<not> distinct xs"
  then have ne: "xs \<noteq> []" by auto
  have "card (set xs) \<noteq> length xs" using nd card_distinct by blast
  then show ?thesis using ne by (auto simp: UniqueStack_init_def Let_def)
qed

lemma push_inv: "stack_inv s \<Longrightarrow> stack_inv (snd (push x s))"
  by (auto simp: stack_inv_def push_def)

lemma pop_inv: "stack_inv s \<Longrightarrow> stack_inv (snd (pop s))"
  by (auto simp: stack_inv_def pop_def split: list.splits)

text \<open>
  C8. Every stack the constructor returns satisfies the invariant (the membership set is
  the set of the elements of the sequence, and the elements are distinct); \<^verbatim>\<open>push\<close> and
  \<^verbatim>\<open>pop\<close> preserve it, whether they raise or not; \<^verbatim>\<open>push(x)\<close> with \<open>x\<close> present
  raises and leaves the stack as it was; the constructor raises on an input with repeats.
\<close>

theorem C8_unique_stack_invariant:
  "(UniqueStack_init xs = Inr s \<longrightarrow> stack_inv s) \<and>
   (stack_inv s \<longrightarrow> stack_inv (snd (push x s)) \<and> stack_inv (snd (pop s))) \<and>
   (contains_stack s x \<longrightarrow> push x s = (Inl RequiresUnique, s)) \<and>
   (\<not> distinct xs \<longrightarrow> UniqueStack_init xs = Inl RequiresUnique)"
proof (intro conjI impI)
  assume "UniqueStack_init xs = Inr s"
  then show "stack_inv s" by (auto simp: stack_inv_def dest: UniqueStack_init_Inr)
next
  assume "stack_inv s" then show "stack_inv (snd (push x s))" by (rule push_inv)
next
  assume "stack_inv s" then show "stack_inv (snd (pop s))" by (rule pop_inv)
next
  assume "contains_stack s x"
  then show "push x s = (Inl RequiresUnique, s)" by (simp add: contains_stack_def push_def)
next
  assume "\<not> distinct xs"
  then show "UniqueStack_init xs = Inl RequiresUnique" by (rule UniqueStack_init_repeats)
qed

theorem C8_unique_stack_invariant_witness:
  "UniqueStack_init [1, 2 :: nat] = Inr \<lparr>stack = [2, 1], stackset = {1, 2}\<rparr> \<and>
   stack_inv \<lparr>stack = [2, 1 :: nat], stackset = {1, 2}\<rparr> \<and>
   stack_inv (snd (push 3 \<lparr>stack = [2, 1 :: nat], stackset = {1, 2}\<rparr>)) \<and>
   stack_inv (snd (pop \<lparr>stack = [2, 1 :: nat], stackset = {1, 2}\<rparr>)) \<and>
   contains_stack \<lparr>stack = [2, 1 :: nat], stackset = {1, 2}\<rparr> 2 \<and>
   push 2 \<lparr>stack = [2, 1 :: nat], stackset = {1, 2}\<rparr>
     = (Inl RequiresUnique, \<lparr>stack = [2, 1], stackset = {1, 2}\<rparr>) \<and>
   \<not> distinct [1, 1 :: nat] \<and> UniqueStack_init [1, 1 :: nat] = Inl RequiresUnique"
proof -
  have i: "UniqueStack_init [1, 2 :: nat] = Inr \<lparr>stack = [2, 1], stackset = {1, 2}\<rparr>"
    by (simp add: UniqueStack_init_def Let_def)
  have c: "contains_stack \<lparr>stack = [2, 1 :: nat], stackset = {1, 2}\<rparr> 2"
    by (simp add: contains_stack_def)
  have d: "\<not> distinct [1, 1 :: nat]" by simp
  note a = C8_unique_stack_invariant [of "[1, 2 :: nat]" "\<lparr>stack = [2, 1], stackset = {1, 2}\<rparr>"]
  note b = C8_unique_stack_invariant [of "[1, 1 :: nat]" "\<lparr>stack = [2, 1], stackset = {1, 2}\<rparr>" 2]
  have inv: "stack_inv \<lparr>stack = [2, 1 :: nat], stackset = {1, 2}\<rparr>"
    using a [of 3] i by blast
  show ?thesis using a [of 3] b i c d inv by blast
qed


section \<open>Graph mutation\<close>

lemma map_fst_map_entry: "map fst (AList.map_entry k f xs) = map fst xs"
  by (induction xs) auto

lemma map_fst_add_edge_to: "map fst (add_edge_to s d vs) = map fst vs"
  by (auto simp: add_edge_to_def map_fst_map_entry split: option.splits)

lemma keys_add_edge_to: "fst ` set (add_edge_to s d vs) = fst ` set vs"
  using map_fst_add_edge_to [of s d vs] by (metis set_map)

lemma map_of_add_edge_to:
  assumes "map_of vs s = Some sv" "map_of vs d = Some dv"
  shows "map_of (add_edge_to s d vs) k =
     (case map_of vs k of
        None \<Rightarrow> None
      | Some vx \<Rightarrow>
          Some (vx\<lparr>successors := (if k = s then insert (key dv) (successors vx) else successors vx),
                   predecessors := (if k = d then insert (key sv) (predecessors vx) else predecessors vx)\<rparr>))"
  using assms
  by (auto simp: add_edge_to_def map_of_map_entry split: option.splits)

lemma contains_graph_keys: "contains_graph g k \<longleftrightarrow> k \<in> fst ` set (vertices g)"
  by (simp add: contains_graph_def map_of_eq_None_iff)

lemma succs_add_edge_to:
  assumes "map_of vs s = Some sv" "map_of vs d = Some dv"
  shows "succs (add_edge_to s d vs) k = (if k = s then insert (key dv) (succs vs k) else succs vs k)"
  using assms by (auto simp: succs_def map_of_add_edge_to [OF assms] split: option.splits)

lemma preds_add_edge_to:
  assumes "map_of vs s = Some sv" "map_of vs d = Some dv"
  shows "preds (add_edge_to s d vs) k = (if k = d then insert (key sv) (preds vs k) else preds vs k)"
  using assms by (auto simp: preds_def map_of_add_edge_to [OF assms] split: option.splits)

lemma wf_vertices_add_edge_to:
  assumes wf: "wf_vertices vs" and s: "map_of vs s = Some sv" and d: "map_of vs d = Some dv"
  shows "wf_vertices (add_edge_to s d vs)"
proof -
  have ks: "key sv = s" and kd: "key dv = d" using wf s d by (auto simp: wf_vertices_def)
  have din: "d \<in> fst ` set vs" and sin: "s \<in> fst ` set vs"
    using s d by (auto dest: map_of_SomeD intro: rev_image_eqI)
  show ?thesis
    unfolding wf_vertices_def
  proof (intro conjI allI impI)
    show "distinct (map fst (add_edge_to s d vs))"
      using wf by (simp add: map_fst_add_edge_to wf_vertices_def)
  next
    fix k vx assume "map_of (add_edge_to s d vs) k = Some vx"
    then obtain vx0 where vx0: "map_of vs k = Some vx0"
      and vx: "vx = vx0\<lparr>successors := (if k = s then insert (key dv) (successors vx0) else successors vx0),
                   predecessors := (if k = d then insert (key sv) (predecessors vx0) else predecessors vx0)\<rparr>"
      by (auto simp: map_of_add_edge_to [OF s d] split: option.splits)
    have old: "key vx0 = k" "finite (successors vx0)" "finite (predecessors vx0)"
      "successors vx0 \<subseteq> fst ` set vs" "predecessors vx0 \<subseteq> fst ` set vs"
      using wf vx0 by (auto simp: wf_vertices_def)
    show "key vx = k" using old vx by simp
    show "finite (successors vx)" using old vx by simp
    show "finite (predecessors vx)" using old vx by simp
    show "successors vx \<subseteq> fst ` set (add_edge_to s d vs)"
      using old vx din kd by (auto simp: keys_add_edge_to)
    show "predecessors vx \<subseteq> fst ` set (add_edge_to s d vs)"
      using old vx sin ks by (auto simp: keys_add_edge_to)
  next
    fix a b
    have sym: "b \<in> succs vs a \<longleftrightarrow> a \<in> preds vs b" using wf by (simp add: wf_vertices_def)
    show "b \<in> succs (add_edge_to s d vs) a \<longleftrightarrow> a \<in> preds (add_edge_to s d vs) b"
      using sym ks kd by (auto simp: succs_add_edge_to [OF s d] preds_add_edge_to [OF s d])
  qed
qed

lemma map_of_append_new:
  "map_of vs k = None \<Longrightarrow> map_of (vs @ [(k, x)]) k' = (if k' = k then Some x else map_of vs k')"
  by (auto simp: map_add_def split: option.splits)

lemma wf_graph_add_vertex: "wf_graph g \<Longrightarrow> wf_graph (snd (add_vertex k v g))"
proof (cases "contains_graph g k")
  case True
  assume "wf_graph g" then show ?thesis using True by (simp add: add_vertex_def)
next
  case False
  assume wf: "wf_graph g"
  let ?vs = "vertices g" and ?vs' = "vertices g @ [(k, DAGraphVertex_init k v)]"
  have none: "map_of ?vs k = None" using False by (simp add: contains_graph_def)
  have knew: "k \<notin> fst ` set ?vs" using none by (simp add: map_of_eq_None_iff)
  have mo: "\<And>k'. map_of ?vs' k' = (if k' = k then Some (DAGraphVertex_init k v) else map_of ?vs k')"
    using none by (rule map_of_append_new)
  have su: "\<And>a. succs ?vs' a = succs ?vs a"
    unfolding succs_def mo using none by (auto simp: DAGraphVertex_init_def)
  have pr: "\<And>a. preds ?vs' a = preds ?vs a"
    unfolding preds_def mo using none by (auto simp: DAGraphVertex_init_def)
  have wv: "wf_vertices ?vs" using wf by (simp add: wf_graph_def)
  have "wf_vertices ?vs'"
    unfolding wf_vertices_def
  proof (intro conjI allI impI)
    show "distinct (map fst ?vs')" using wv knew by (simp add: wf_vertices_def)
  next
    fix k' vx assume "map_of ?vs' k' = Some vx"
    then have a: "(if k' = k then Some (DAGraphVertex_init k v) else map_of ?vs k') = Some vx"
      unfolding mo .
    show "key vx = k'" using a wv by (auto simp: wf_vertices_def DAGraphVertex_init_def split: if_splits)
    show "finite (successors vx)" using a wv by (auto simp: wf_vertices_def DAGraphVertex_init_def split: if_splits)
    show "finite (predecessors vx)" using a wv by (auto simp: wf_vertices_def DAGraphVertex_init_def split: if_splits)
    show "successors vx \<subseteq> fst ` set ?vs'"
      using a wv by (fastforce simp: wf_vertices_def DAGraphVertex_init_def split: if_splits)
    show "predecessors vx \<subseteq> fst ` set ?vs'"
      using a wv by (fastforce simp: wf_vertices_def DAGraphVertex_init_def split: if_splits)
  next
    fix a b show "b \<in> succs ?vs' a \<longleftrightarrow> a \<in> preds ?vs' b"
      using wv by (simp add: su pr wf_vertices_def)
  qed
  then show ?thesis using wf False by (simp add: add_vertex_def wf_graph_def su)
qed

lemma wf_graph_add_edge: "wf_graph g \<Longrightarrow> wf_graph (snd (add_edge dst src g))"
proof -
  assume wf: "wf_graph g"
  show ?thesis
  proof (cases "contains_graph g src \<and> contains_graph g dst")
    case False
    then show ?thesis using wf by (auto simp: add_edge_def)
  next
    case True
    then obtain sv dv where s: "map_of (vertices g) src = Some sv" and d: "map_of (vertices g) dst = Some dv"
      by (auto simp: contains_graph_def)
    have wv: "wf_vertices (vertices g)" using wf by (simp add: wf_graph_def)
    have kd: "key dv = dst" using wv d by (auto simp: wf_vertices_def)
    have wv': "wf_vertices (add_edge_to src dst (vertices g))"
      by (rule wf_vertices_add_edge_to [OF wv s d])
    have su: "\<And>k. succs (add_edge_to src dst (vertices g)) k
        = (if k = src then insert dst (succs (vertices g) k) else succs (vertices g) k)"
      using succs_add_edge_to [OF s d] kd by simp
    have fl: "direct_cyclic g \<longleftrightarrow> (\<exists>k. k \<in> succs (vertices g) k)" using wf by (simp add: wf_graph_def)
    have ex: "(\<exists>k. k \<in> succs (add_edge_to src dst (vertices g)) k)
        \<longleftrightarrow> (src = dst \<or> (\<exists>k. k \<in> succs (vertices g) k))"
      unfolding su by auto
    show ?thesis using True wv' fl ex
      by (auto simp: add_edge_def wf_graph_def Let_def)
  qed
qed

lemma wf_graph_add_edge_each: "wf_graph g \<Longrightarrow> wf_graph (snd (add_edge_each dst es g))"
proof (induction es arbitrary: g)
  case Nil then show ?case by simp
next
  case (Cons e es)
  have w: "wf_graph (snd (add_edge dst e g))" using Cons.prems by (rule wf_graph_add_edge)
  show ?case
  proof (cases "add_edge dst e g")
    case (Pair r g')
    then show ?thesis using w Cons.IH [of g'] by (cases r) auto
  qed
qed

lemma wf_graph_add_edges: "wf_graph g \<Longrightarrow> wf_graph (snd (add_edges ik dst srcs g))"
proof (induction srcs arbitrary: g)
  case Nil then show ?case by simp
next
  case (Cons a srcs)
  let ?step = "(case a of Coll es \<Rightarrow> add_edge_each dst es g
            | Key k \<Rightarrow> (case ik k of Some es \<Rightarrow> add_edge_each dst es g | None \<Rightarrow> add_edge dst k g))"
  have w: "wf_graph (snd ?step)"
    using Cons.prems by (auto split: arg.splits option.splits intro: wf_graph_add_edge wf_graph_add_edge_each)
  show ?case
  proof (cases ?step)
    case (Pair r g')
    then show ?thesis using w Cons.IH [of g'] by (cases r) auto
  qed
qed

lemma wf_graph_init: "wf_graph DAGraph_init"
  by (simp add: wf_graph_def wf_vertices_def DAGraph_init_def succs_def preds_def)

lemma reachable_wf: "reachable ik g \<Longrightarrow> wf_graph g"
  by (induction rule: reachable.induct)
     (auto simp: setitem_def intro: wf_graph_init wf_graph_add_vertex wf_graph_add_edge wf_graph_add_edges)


lemma graph12_eq:
  "graph12 = \<lparr>direct_cyclic = False,
     vertices = [(1, \<lparr>key = 1, vvalue = (), successors = {}, predecessors = {}\<rparr>),
                 (2, \<lparr>key = 2, vvalue = (), successors = {}, predecessors = {}\<rparr>)]\<rparr>"
  by (simp add: graph12_def add_vertex_def contains_graph_def DAGraph_init_def DAGraphVertex_init_def)

lemma reachable_graph12: "reachable ik graph12"
  unfolding graph12_def by (intro reachable.intros)

lemma add_edge_graph12:
  "add_edge 2 1 graph12 = (Inr (), \<lparr>direct_cyclic = False,
     vertices = [(1, \<lparr>key = 1, vvalue = (), successors = {2}, predecessors = {}\<rparr>),
                 (2, \<lparr>key = 2, vvalue = (), successors = {}, predecessors = {1}\<rparr>)]\<rparr>)"
  by (simp add: graph12_eq add_edge_def contains_graph_def add_edge_to_def)

text \<open>
  C6. A call of \<^verbatim>\<open>add_vertex\<close> or \<^verbatim>\<open>add_edge\<close> that raises leaves the graph
  (the dictionary with every vertex object, and the flag) equal to the graph before the
  call; \<^verbatim>\<open>add_vertex\<close> raises on a present key, \<^verbatim>\<open>add_edge\<close> when either end is absent.
\<close>

theorem C6_atomic_on_failure:
  "(fst (add_vertex k v g) = Inl e \<longrightarrow> snd (add_vertex k v g) = g) \<and>
   (fst (add_edge dst src g) = Inl e \<longrightarrow> snd (add_edge dst src g) = g) \<and>
   (contains_graph g k \<longrightarrow> add_vertex k v g = (Inl (AlreadyInGraph k), g)) \<and>
   (\<not> contains_graph g src \<longrightarrow> add_edge dst src g = (Inl (NotPresent src), g)) \<and>
   (contains_graph g src \<and> \<not> contains_graph g dst \<longrightarrow>
      add_edge dst src g = (Inl (NotPresent dst), g))"
  by (auto simp: add_vertex_def add_edge_def Let_def split: if_splits)

theorem C6_atomic_on_failure_witness:
  "fst (add_vertex 1 () graph12) = Inl (AlreadyInGraph 1) \<and> snd (add_vertex 1 () graph12) = graph12 \<and>
   fst (add_edge 1 3 graph12) = Inl (NotPresent 3) \<and> snd (add_edge 1 3 graph12) = graph12 \<and>
   contains_graph graph12 1 \<and> \<not> contains_graph graph12 3 \<and>
   add_edge 3 1 graph12 = (Inl (NotPresent 3), graph12)"
proof -
  have c: "contains_graph graph12 1" "\<not> contains_graph graph12 3"
    by (simp_all add: graph12_eq contains_graph_def)
  note t1 = C6_atomic_on_failure [of 1 "()" graph12 "AlreadyInGraph 1" 1 3]
  note t2 = C6_atomic_on_failure [of 1 "()" graph12 "NotPresent 3" 1 3]
  note t3 = C6_atomic_on_failure [of 1 "()" graph12 "NotPresent 3" 3 1]
  have a: "add_vertex 1 () graph12 = (Inl (AlreadyInGraph 1), graph12)" using t1 c by blast
  have b: "add_edge 1 3 graph12 = (Inl (NotPresent 3), graph12)" using t2 c by blast
  have d: "add_edge 3 1 graph12 = (Inl (NotPresent 3), graph12)" using t3 c by blast
  show ?thesis using a b c d by simp
qed

text \<open>
  C9. \<^verbatim>\<open>graph[key] = value\<close> is \<^verbatim>\<open>add_vertex(key, value)\<close>: on an absent key it appends
  a vertex with that value and empty adjacency sets, on a present key it raises the
  duplicate-key error and leaves the graph unchanged (so the stored value is not
  replaced); \<^verbatim>\<open>graph[key]\<close> on an absent key raises \<^verbatim>\<open>KeyError\<close>.
\<close>

theorem C9_setitem_getitem:
  "setitem k v g = add_vertex k v g \<and>
   (\<not> contains_graph g k \<longrightarrow>
      setitem k v g =
        (Inr (), g\<lparr>vertices := vertices g @
           [(k, \<lparr>key = k, vvalue = v, successors = {}, predecessors = {}\<rparr>)]\<rparr>) \<and>
      getitem (snd (setitem k v g)) k = Inr v \<and>
      getitem g k = Inl (KeyError k)) \<and>
   (contains_graph g k \<longrightarrow>
      setitem k v g = (Inl (AlreadyInGraph k), g) \<and>
      getitem (snd (setitem k v g)) k = getitem g k)"
  by (auto simp: setitem_def add_vertex_def getitem_def contains_graph_def DAGraphVertex_init_def
      map_add_def split: option.splits)

theorem C9_setitem_getitem_witness:
  "\<not> contains_graph graph12 3 \<and>
   setitem 3 () graph12 =
     (Inr (), graph12\<lparr>vertices := vertices graph12 @
        [(3, \<lparr>key = 3, vvalue = (), successors = {}, predecessors = {}\<rparr>)]\<rparr>) \<and>
   getitem graph12 3 = Inl (KeyError 3) \<and>
   contains_graph graph12 1 \<and>
   setitem 1 () graph12 = (Inl (AlreadyInGraph 1), graph12)"
proof -
  have c: "contains_graph graph12 1" "\<not> contains_graph graph12 3"
    by (simp_all add: graph12_eq contains_graph_def)
  show ?thesis
    using C9_setitem_getitem [of 3 "()" graph12] C9_setitem_getitem [of 1 "()" graph12] c
    by blast
qed

text \<open>
  C7. In every graph built from \<^verbatim>\<open>DAGraph()\<close> by \<^verbatim>\<open>add_vertex\<close>, \<^verbatim>\<open>add_edge\<close>,
  \<^verbatim>\<open>add_edges\<close> and \<^verbatim>\<open>__setitem__\<close> (raising calls included), for any two vertices
  \<open>sv\<close> and \<open>dv\<close> of the graph, \<open>dv.key\<close> is in \<open>sv.successors\<close> exactly when
  \<open>sv.key\<close> is in \<open>dv.predecessors\<close>, and every key in an adjacency set is a key of
  the graph.
\<close>

theorem C7_edge_symmetry:
  assumes "reachable ik g"
    and "map_of (vertices g) s = Some sv" and "map_of (vertices g) d = Some dv"
  shows "(key dv \<in> successors sv \<longleftrightarrow> key sv \<in> predecessors dv) \<and>
         successors sv \<subseteq> set (items g) \<and> predecessors sv \<subseteq> set (items g)"
proof -
  have wv: "wf_vertices (vertices g)"
    using reachable_wf [OF assms(1)] by (simp add: wf_graph_def)
  have k: "key sv = s" "key dv = d" using wv assms(2,3) by (auto simp: wf_vertices_def)
  have sub: "successors sv \<subseteq> fst ` set (vertices g)" "predecessors sv \<subseteq> fst ` set (vertices g)"
    using wv assms(2) unfolding wf_vertices_def by blast+
  have "d \<in> succs (vertices g) s \<longleftrightarrow> s \<in> preds (vertices g) d"
    using wv by (simp add: wf_vertices_def)
  then have "d \<in> successors sv \<longleftrightarrow> s \<in> predecessors dv"
    using assms(2,3) by (simp add: succs_def preds_def)
  then show ?thesis using k sub by (simp add: items_def)
qed

theorem C7_edge_symmetry_witness:
  "reachable (\<lambda>k. None) (snd (add_edge 2 1 graph12)) \<and>
   map_of (vertices (snd (add_edge 2 1 graph12))) 1
     = Some \<lparr>key = 1, vvalue = (), successors = {2}, predecessors = {}\<rparr> \<and>
   map_of (vertices (snd (add_edge 2 1 graph12))) 2
     = Some \<lparr>key = 2, vvalue = (), successors = {}, predecessors = {1}\<rparr> \<and>
   (key \<lparr>key = 2 :: nat, vvalue = (), successors = {}, predecessors = {1}\<rparr>
      \<in> successors \<lparr>key = 1 :: nat, vvalue = (), successors = {2}, predecessors = {}\<rparr>) \<and>
   (key \<lparr>key = 1 :: nat, vvalue = (), successors = {2}, predecessors = {}\<rparr>
      \<in> predecessors \<lparr>key = 2 :: nat, vvalue = (), successors = {}, predecessors = {1}\<rparr>) \<and>
   successors \<lparr>key = 1 :: nat, vvalue = (), successors = {2}, predecessors = {}\<rparr>
     \<subseteq> set (items (snd (add_edge 2 1 graph12)))"
proof -
  have r: "reachable (\<lambda>k. None) (snd (add_edge 2 1 graph12))"
    by (intro reachable.intros reachable_graph12)
  have m1: "map_of (vertices (snd (add_edge 2 1 graph12))) 1
     = Some \<lparr>key = 1, vvalue = (), successors = {2}, predecessors = {}\<rparr>"
    unfolding add_edge_graph12 by simp
  have m2: "map_of (vertices (snd (add_edge 2 1 graph12))) 2
     = Some \<lparr>key = 2, vvalue = (), successors = {}, predecessors = {1}\<rparr>"
    unfolding add_edge_graph12 by simp
  show ?thesis using C7_edge_symmetry [OF r m1 m2] r m1 m2 by simp
qed

section \<open>add_edges\<close>

lemma add_edge_each_append:
  "add_edge_each dst (xs @ ys) g =
      (case add_edge_each dst xs g of (Inl err, g') \<Rightarrow> (Inl err, g')
       | (Inr u, g') \<Rightarrow> add_edge_each dst ys g')"
  by (induction xs arbitrary: g) (auto split: prod.splits sum.splits)

lemma add_edge_each_single: "add_edge_each dst [k] g = add_edge dst k g"
proof (cases "add_edge dst k g")
  case (Pair r g')
  then show ?thesis by (cases r) auto
qed

lemma add_edges_step:
  "(case a of
      Coll es \<Rightarrow> add_edge_each dst es g
    | Key k \<Rightarrow> (case ik k of Some es \<Rightarrow> add_edge_each dst es g | None \<Rightarrow> add_edge dst k g))
   = add_edge_each dst (arg_elems ik a) g"
  by (simp add: arg_elems_def add_edge_each_single del: add_edge_each.simps
      split: arg.splits option.splits)

lemma add_edges_flat:
  "add_edges ik dst srcs g = add_edge_each dst (concat (map (arg_elems ik) srcs)) g"
proof (induction srcs arbitrary: g)
  case Nil show ?case by simp
next
  case (Cons a srcs)
  have "add_edges ik dst (a # srcs) g =
      (case add_edge_each dst (arg_elems ik a) g of
         (Inl err, g') \<Rightarrow> (Inl err, g')
       | (Inr u, g') \<Rightarrow> add_edges ik dst srcs g')"
    unfolding add_edges.simps add_edges_step ..
  also have "\<dots> = add_edge_each dst (arg_elems ik a @ concat (map (arg_elems ik) srcs)) g"
    unfolding add_edge_each_append Cons.IH ..
  finally show ?case by simp
qed

lemma add_edges_single_key:
  "iterable_key k = None \<Longrightarrow> add_edges iterable_key dst [Key k] g = add_edge dst k g"
  by (simp add: add_edges_flat arg_elems_def add_edge_each_single del: add_edge_each.simps)

lemma add_edge_ok:
  assumes wf: "wf_graph g" and s: "contains_graph g src" and d: "contains_graph g dst"
  shows "fst (add_edge dst src g) = Inr ()"
    and "map fst (vertices (snd (add_edge dst src g))) = map fst (vertices g)"
    and "succs (vertices (snd (add_edge dst src g))) k
          = (if k = src then insert dst (succs (vertices g) k) else succs (vertices g) k)"
    and "preds (vertices (snd (add_edge dst src g))) k
          = (if k = dst then insert src (preds (vertices g) k) else preds (vertices g) k)"
proof -
  obtain sv dv where sv: "map_of (vertices g) src = Some sv" and dv: "map_of (vertices g) dst = Some dv"
    using s d by (auto simp: contains_graph_def)
  have k: "key sv = src" "key dv = dst" using wf sv dv by (auto simp: wf_graph_def wf_vertices_def)
  have v: "vertices (snd (add_edge dst src g)) = add_edge_to src dst (vertices g)"
    using s d by (simp add: add_edge_def Let_def)
  show "fst (add_edge dst src g) = Inr ()" using s d by (simp add: add_edge_def Let_def)
  show "map fst (vertices (snd (add_edge dst src g))) = map fst (vertices g)"
    unfolding v by (rule map_fst_add_edge_to)
  show "succs (vertices (snd (add_edge dst src g))) k
          = (if k = src then insert dst (succs (vertices g) k) else succs (vertices g) k)"
    unfolding v succs_add_edge_to [OF sv dv] k ..
  show "preds (vertices (snd (add_edge dst src g))) k
          = (if k = dst then insert src (preds (vertices g) k) else preds (vertices g) k)"
    unfolding v preds_add_edge_to [OF sv dv] k ..
qed

lemma contains_graph_cong:
  "map fst (vertices g') = map fst (vertices g) \<Longrightarrow> contains_graph g' k = contains_graph g k"
  by (metis contains_graph_keys set_map)

lemma add_edge_each_ok:
  assumes "wf_graph g" "contains_graph g dst" "\<forall>p\<in>set pre. contains_graph g p"
  shows "fst (add_edge_each dst pre g) = Inr () \<and>
         map fst (vertices (snd (add_edge_each dst pre g))) = map fst (vertices g) \<and>
         (\<forall>k. succs (vertices (snd (add_edge_each dst pre g))) k
               = (if k \<in> set pre then insert dst (succs (vertices g) k) else succs (vertices g) k)) \<and>
         (\<forall>k. preds (vertices (snd (add_edge_each dst pre g))) k
               = (if k = dst then set pre \<union> preds (vertices g) k else preds (vertices g) k))"
  using assms
proof (induction pre arbitrary: g)
  case Nil
  then show ?case by simp
next
  case (Cons p pre)
  let ?g1 = "snd (add_edge dst p g)"
  have p: "contains_graph g p" using Cons.prems by simp
  note ok = add_edge_ok [OF Cons.prems(1) p Cons.prems(2)]
  have wf1: "wf_graph ?g1" using Cons.prems(1) by (rule wf_graph_add_edge)
  have c1: "\<And>k. contains_graph ?g1 k = contains_graph g k"
    using ok(2) by (rule contains_graph_cong)
  have ih: "fst (add_edge_each dst pre ?g1) = Inr () \<and>
         map fst (vertices (snd (add_edge_each dst pre ?g1))) = map fst (vertices ?g1) \<and>
         (\<forall>k. succs (vertices (snd (add_edge_each dst pre ?g1))) k
               = (if k \<in> set pre then insert dst (succs (vertices ?g1) k) else succs (vertices ?g1) k)) \<and>
         (\<forall>k. preds (vertices (snd (add_edge_each dst pre ?g1))) k
               = (if k = dst then set pre \<union> preds (vertices ?g1) k else preds (vertices ?g1) k))"
    using Cons.IH [OF wf1] Cons.prems c1 by simp
  have step: "add_edge_each dst (p # pre) g = add_edge_each dst pre ?g1"
    using ok(1) by (cases "add_edge dst p g") auto
  show ?case unfolding step using ih ok(2) by (auto simp: ok(3) ok(4))
qed

text \<open>
  C10. When \<^verbatim>\<open>add_edges(dst, *srcs)\<close> reaches an absent key \<open>bad\<close> after the present
  keys \<open>pre\<close> (with \<open>dst\<close> present), it raises for \<open>bad\<close> and the graph it leaves is the
  one with the edges from all of \<open>pre\<close> to \<open>dst\<close> added: nothing is rolled back.
\<close>

theorem C10_add_edges_not_atomic:
  assumes "wf_graph g" and "contains_graph g dst"
    and "concat (map (arg_elems ik) srcs) = pre @ bad # post"
    and "\<forall>p\<in>set pre. contains_graph g p" and "\<not> contains_graph g bad"
  shows "fst (add_edges ik dst srcs g) = Inl (NotPresent bad) \<and>
         snd (add_edges ik dst srcs g) = snd (add_edge_each dst pre g) \<and>
         fst (add_edge_each dst pre g) = Inr () \<and>
         (\<forall>p\<in>set pre. dst \<in> succs (vertices (snd (add_edges ik dst srcs g))) p \<and>
                       p \<in> preds (vertices (snd (add_edges ik dst srcs g))) dst)"
proof -
  let ?g1 = "snd (add_edge_each dst pre g)"
  note ok = add_edge_each_ok [OF assms(1,2,4)]
  have nb: "\<not> contains_graph ?g1 bad"
    using ok assms(5) contains_graph_cong [of ?g1 g bad] by simp
  have "add_edge_each dst (bad # post) ?g1 = (Inl (NotPresent bad), ?g1)"
    using nb by (simp add: add_edge_def)
  then have "add_edge_each dst (pre @ bad # post) g = (Inl (NotPresent bad), ?g1)"
    using ok by (cases "add_edge_each dst pre g") (auto simp: add_edge_each_append)
  then have r: "add_edges ik dst srcs g = (Inl (NotPresent bad), ?g1)"
    using assms(3) by (simp add: add_edges_flat)
  show ?thesis unfolding r using ok by simp
qed

theorem C10_add_edges_not_atomic_witness:
  "wf_graph graph12 \<and> contains_graph graph12 2 \<and>
   concat (map (arg_elems (\<lambda>k. None)) [Key 1, Key 3, Key 2]) = [1] @ 3 # [2 :: nat] \<and>
   contains_graph graph12 1 \<and> \<not> contains_graph graph12 3 \<and>
   fst (add_edges (\<lambda>k. None) 2 [Key 1, Key 3, Key 2] graph12) = Inl (NotPresent 3) \<and>
   2 \<in> succs (vertices (snd (add_edges (\<lambda>k. None) 2 [Key 1, Key 3, Key 2] graph12))) 1 \<and>
   1 \<in> preds (vertices (snd (add_edges (\<lambda>k. None) 2 [Key 1, Key 3, Key 2] graph12))) 2 \<and>
   2 \<notin> succs (vertices graph12) 1"
proof -
  have w: "wf_graph graph12" using reachable_graph12 by (rule reachable_wf)
  have c1: "contains_graph graph12 1" by (simp add: graph12_eq contains_graph_def)
  have c: "contains_graph graph12 2" "\<forall>p\<in>set [1]. contains_graph graph12 p"
    "\<not> contains_graph graph12 3"
    by (simp_all add: graph12_eq contains_graph_def)
  have f: "concat (map (arg_elems (\<lambda>k. None)) [Key 1, Key 3, Key 2]) = [1] @ 3 # [2 :: nat]"
    by (simp add: arg_elems_def)
  have n: "2 \<notin> succs (vertices graph12) 1" by (simp add: graph12_eq succs_def)
  have m: "(1 :: nat) \<in> set [1]" by simp
  show ?thesis using C10_add_edges_not_atomic [OF w c(1) f c(2) c(3)] w c c1 f n m by blast
qed

text \<open>
  C5. The code at a key that Python can iterate: with the vertices \<^verbatim>\<open>"ab"\<close> and
  \<^verbatim>\<open>"c"\<close>, \<^verbatim>\<open>add_edge("c", "ab")\<close> adds the edge, while \<^verbatim>\<open>add_edges("c", "ab")\<close>
  iterates the string, raises for the absent key \<^verbatim>\<open>"a"\<close> and adds nothing.
\<close>

theorem C5_add_edges_iterates_string_key:
  "add_edge ''c'' ''ab'' graph_ab_c =
     (Inr (), \<lparr>direct_cyclic = False,
        vertices = [(''ab'', \<lparr>key = ''ab'', vvalue = (), successors = {''c''}, predecessors = {}\<rparr>),
                    (''c'', \<lparr>key = ''c'', vvalue = (), successors = {}, predecessors = {''ab''}\<rparr>)]\<rparr>) \<and>
   add_edges str_iterable ''c'' [Key ''ab''] graph_ab_c = (Inl (NotPresent ''a''), graph_ab_c)"
  by (simp add: graph_ab_c_def add_vertex_def add_edge_def add_edge_to_def contains_graph_def
      DAGraph_init_def DAGraphVertex_init_def str_iterable_def)

section \<open>Traversal queries\<close>

lemma rtrancl_Image_step: "r\<^sup>* `` {a} = insert a (r\<^sup>* `` (r `` {a}))"
  by (auto elim: converse_rtranclE intro: converse_rtrancl_into_rtrancl)

lemma trancl_Image_step: "r\<^sup>+ `` {a} = r\<^sup>* `` (r `` {a})"
  by (auto dest: tranclD intro: rtrancl_into_trancl2)

lemma adj_rel_Image: "adj_rel adj vs `` {a} = adjs adj vs a"
  by (auto simp: adj_rel_def)

lemma cycle_from_succ:
  assumes "cycle_from r a"
  shows "\<exists>s. (a, s) \<in> r \<and> cycle_from r s"
proof -
  from assms obtain c where c: "(a, c) \<in> r\<^sup>*" "(c, c) \<in> r\<^sup>+" by (auto simp: cycle_from_def)
  then have "(a, c) \<in> r\<^sup>+" by (rule rtrancl_trancl_trancl)
  then obtain s where "(a, s) \<in> r" "(s, c) \<in> r\<^sup>*" by (auto dest: tranclD)
  then show ?thesis using c(2) by (auto simp: cycle_from_def)
qed

lemma work_loop_Inr_no_cycle:
  assumes "work_loop adj iter vs stk acc = Some y"
  shows "(\<forall>a vx. map_of vs a = Some vx \<longrightarrow> set (iter (adj vx)) = adj vx) \<longrightarrow>
         (\<forall>r. y = Inr r \<longrightarrow> (\<forall>x\<in>set stk. \<not> cycle_from (adj_rel adj vs) x))"
proof (rule work_loop.raw_induct [where P = "\<lambda>adj iter vs stk acc y.
      (\<forall>a vx. map_of vs a = Some vx \<longrightarrow> set (iter (adj vx)) = adj vx) \<longrightarrow>
      (\<forall>r. y = Inr r \<longrightarrow> (\<forall>x\<in>set stk. \<not> cycle_from (adj_rel adj vs) x))", OF _ assms])
  fix loop adj iter vs stk acc y
  assume 1: "\<And>adj iter vs stk acc y. loop adj iter vs stk acc = Some y \<Longrightarrow>
      (\<forall>a vx. map_of vs a = Some vx \<longrightarrow> set (iter (adj vx)) = adj vx) \<longrightarrow>
      (\<forall>r. y = Inr r \<longrightarrow> (\<forall>x\<in>set stk. \<not> cycle_from (adj_rel adj vs) x))"
    "(case stk of [] \<Rightarrow> Some (Inr acc)
      | elem # rest \<Rightarrow>
          (case map_of vs elem of None \<Rightarrow> Some (Inl (KeyError elem))
           | Some vx \<Rightarrow> loop adj iter vs (rev (iter (adj vx)) @ rest) (insert elem acc))) = Some y"
  show "(\<forall>a vx. map_of vs a = Some vx \<longrightarrow> set (iter (adj vx)) = adj vx) \<longrightarrow>
      (\<forall>r. y = Inr r \<longrightarrow> (\<forall>x\<in>set stk. \<not> cycle_from (adj_rel adj vs) x))"
  proof (intro impI allI ballI)
    fix r x
    assume it: "\<forall>a vx. map_of vs a = Some vx \<longrightarrow> set (iter (adj vx)) = adj vx"
      and y: "y = Inr r" and x: "x \<in> set stk"
    from x obtain elem rest where stk: "stk = elem # rest" by (cases stk) auto
    from 1(2) stk y obtain vx where vx: "map_of vs elem = Some vx"
      and rc: "loop adj iter vs (rev (iter (adj vx)) @ rest) (insert elem acc) = Some (Inr r)"
      by (auto split: option.splits)
    have ih: "\<forall>x\<in>set (rev (iter (adj vx)) @ rest). \<not> cycle_from (adj_rel adj vs) x"
      using 1(1) [OF rc] it by blast
    have sv: "set (iter (adj vx)) = adj vx" using it vx by blast
    show "\<not> cycle_from (adj_rel adj vs) x"
    proof (cases "x = elem")
      case False
      then show ?thesis using ih x stk by auto
    next
      case True
      show ?thesis
      proof
        assume "cycle_from (adj_rel adj vs) x"
        then obtain s where s: "(elem, s) \<in> adj_rel adj vs" "cycle_from (adj_rel adj vs) s"
          using True cycle_from_succ by metis
        have "s \<in> adj vx" using s(1) vx by (simp add: adj_rel_def adjs_def)
        then show False using ih sv s(2) by auto
      qed
    qed
  qed
qed

lemma work_loop_no_KeyError:
  assumes "work_loop adj iter vs stk acc = Some y"
  shows "(\<forall>a vx. map_of vs a = Some vx \<longrightarrow> set (iter (adj vx)) \<subseteq> fst ` set vs) \<longrightarrow>
         set stk \<subseteq> fst ` set vs \<longrightarrow> (\<exists>r. y = Inr r)"
proof (rule work_loop.raw_induct [where P = "\<lambda>adj iter vs stk acc y.
      (\<forall>a vx. map_of vs a = Some vx \<longrightarrow> set (iter (adj vx)) \<subseteq> fst ` set vs) \<longrightarrow>
         set stk \<subseteq> fst ` set vs \<longrightarrow> (\<exists>r. y = Inr r)", OF _ assms])
  fix loop adj iter vs stk acc y
  assume 1: "\<And>adj iter vs stk acc y. loop adj iter vs stk acc = Some y \<Longrightarrow>
      (\<forall>a vx. map_of vs a = Some vx \<longrightarrow> set (iter (adj vx)) \<subseteq> fst ` set vs) \<longrightarrow>
         set stk \<subseteq> fst ` set vs \<longrightarrow> (\<exists>r. y = Inr r)"
    "(case stk of [] \<Rightarrow> Some (Inr acc)
      | elem # rest \<Rightarrow>
          (case map_of vs elem of None \<Rightarrow> Some (Inl (KeyError elem))
           | Some vx \<Rightarrow> loop adj iter vs (rev (iter (adj vx)) @ rest) (insert elem acc))) = Some y"
  show "(\<forall>a vx. map_of vs a = Some vx \<longrightarrow> set (iter (adj vx)) \<subseteq> fst ` set vs) \<longrightarrow>
         set stk \<subseteq> fst ` set vs \<longrightarrow> (\<exists>r. y = Inr r)"
  proof (intro impI)
    assume it: "\<forall>a vx. map_of vs a = Some vx \<longrightarrow> set (iter (adj vx)) \<subseteq> fst ` set vs"
      and sub: "set stk \<subseteq> fst ` set vs"
    show "\<exists>r. y = Inr r"
    proof (cases stk)
      case Nil
      then show ?thesis using 1(2) by auto
    next
      case (Cons elem rest)
      then have "elem \<in> fst ` set vs" using sub by simp
      then obtain vx where vx: "map_of vs elem = Some vx"
        by (metis map_of_eq_None_iff not_Some_eq)
      have rc: "loop adj iter vs (rev (iter (adj vx)) @ rest) (insert elem acc) = Some y"
        using 1(2) Cons vx by simp
      have "set (rev (iter (adj vx)) @ rest) \<subseteq> fst ` set vs"
        using it vx sub Cons by auto
      then show ?thesis using 1(1) [OF rc] it by blast
    qed
  qed
qed

lemma work_loop_terminates:
  assumes wfR: "wf {(b, a). a \<in> A \<and> b \<in> adjs adj vs a}"
    and closed: "\<And>a b. a \<in> A \<Longrightarrow> b \<in> adjs adj vs a \<Longrightarrow> b \<in> A"
    and present: "\<And>a. a \<in> A \<Longrightarrow> map_of vs a \<noteq> None"
    and it: "\<And>a vx. map_of vs a = Some vx \<Longrightarrow> set (iter (adj vx)) = adj vx"
  shows "set stk \<subseteq> A \<Longrightarrow>
     work_loop adj iter vs stk acc = Some (Inr (acc \<union> (adj_rel adj vs)\<^sup>* `` set stk))"
proof (induction "mset stk" arbitrary: stk acc rule: wf_induct_rule [OF wf_mult1 [OF wfR]])
  case 1
  let ?R = "adj_rel adj vs"
  show ?case
  proof (cases stk)
    case Nil
    then show ?thesis by (simp add: work_loop.simps)
  next
    case (Cons elem rest)
    have eA: "elem \<in> A" using 1(2) Cons by simp
    then obtain vx where vx: "map_of vs elem = Some vx" using present by blast
    have sv: "set (iter (adj vx)) = adj vx" using it vx by blast
    have av: "adjs adj vs elem = adj vx" using vx by (simp add: adjs_def)
    let ?new = "rev (iter (adj vx)) @ rest"
    have less: "(mset ?new, mset stk) \<in> mult1 {(b, a). a \<in> A \<and> b \<in> adjs adj vs a}"
    proof -
      have "\<exists>a M0 K. mset stk = add_mset a M0 \<and> mset ?new = M0 + K \<and>
          (\<forall>b. b \<in># K \<longrightarrow> (b, a) \<in> {(b, a). a \<in> A \<and> b \<in> adjs adj vs a})"
        by (rule exI [where x = elem], rule exI [where x = "mset rest"],
            rule exI [where x = "mset (iter (adj vx))"])
           (use Cons sv av eA in auto)
      then show ?thesis unfolding mult1_def by blast
    qed
    have sub: "set ?new \<subseteq> A" using 1(2) Cons sv av closed [OF eA] by auto
    have ih: "work_loop adj iter vs ?new (insert elem acc)
        = Some (Inr (insert elem acc \<union> ?R\<^sup>* `` set ?new))"
      by (rule 1(1) [OF less sub])
    have "?R\<^sup>* `` set stk = ?R\<^sup>* `` {elem} \<union> ?R\<^sup>* `` set rest"
      using Cons by auto
    also have "?R\<^sup>* `` {elem} = insert elem (?R\<^sup>* `` adj vx)"
      using rtrancl_Image_step [of ?R elem] by (simp add: adj_rel_Image av)
    finally have eq: "acc \<union> ?R\<^sup>* `` set stk = insert elem acc \<union> ?R\<^sup>* `` set ?new"
      using sv by auto
    show ?thesis
      unfolding eq using ih vx Cons by (simp add: work_loop.simps)
  qed
qed


lemma adjs_in_keys:
  assumes "\<forall>a vx. map_of vs a = Some vx \<longrightarrow> adj vx \<subseteq> fst ` set vs"
  shows "adjs adj vs a \<subseteq> fst ` set vs"
  using assms by (auto simp: adjs_def split: option.splits)

lemma adj_rel_trancl_in_keys:
  assumes "\<forall>a vx. map_of vs a = Some vx \<longrightarrow> adj vx \<subseteq> fst ` set vs"
    and "(a, b) \<in> (adj_rel adj vs)\<^sup>+"
  shows "b \<in> fst ` set vs"
proof -
  from assms(2) obtain c where "(c, b) \<in> adj_rel adj vs" by (auto dest: tranclD2)
  then show ?thesis using adjs_in_keys [OF assms(1), of c] by (auto simp: adj_rel_def)
qed

text \<open>The call returns when no cycle can be reached, with the transitive closure.\<close>

lemma get_all_returns:
  assumes adj: "\<And>a vx. map_of (vertices g) a = Some vx \<Longrightarrow>
        finite (adj vx) \<and> adj vx \<subseteq> fst ` set (vertices g)"
    and ord: "set_order iter"
    and k: "contains_graph g k"
    and nc: "\<not> cycle_from (adj_rel adj (vertices g)) k"
  shows "get_all adj iter g k = Some (Inr (iter ((adj_rel adj (vertices g))\<^sup>+ `` {k})))"
    and "set (iter ((adj_rel adj (vertices g))\<^sup>+ `` {k})) = (adj_rel adj (vertices g))\<^sup>+ `` {k}"
    and "distinct (iter ((adj_rel adj (vertices g))\<^sup>+ `` {k}))"
    and "k \<notin> (adj_rel adj (vertices g))\<^sup>+ `` {k}"
proof -
  let ?vs = "vertices g" and ?R = "adj_rel adj (vertices g)"
  let ?A = "?R\<^sup>+ `` {k}"
  obtain vx where vx: "map_of ?vs k = Some vx" using k by (auto simp: contains_graph_def)
  have sub: "\<forall>a vx. map_of ?vs a = Some vx \<longrightarrow> adj vx \<subseteq> fst ` set ?vs" using adj by blast
  have it: "\<And>a vx. map_of ?vs a = Some vx \<Longrightarrow> set (iter (adj vx)) = adj vx"
    using adj ord by (simp add: set_order_def)
  have Akeys: "?A \<subseteq> fst ` set ?vs" using adj_rel_trancl_in_keys [OF sub] by blast
  have finA: "finite ?A" using Akeys by (rule finite_subset) simp
  let ?r = "{(a, b). a \<in> ?A \<and> b \<in> adjs adj ?vs a}"
  have rsub: "?r \<subseteq> ?R" by (auto simp: adj_rel_def)
  have "?r \<subseteq> fst ` set ?vs \<times> fst ` set ?vs"
    using Akeys adjs_in_keys [OF sub] by blast
  then have finr: "finite ?r" by (rule finite_subset) simp
  have acyc: "acyclic ?r"
    unfolding acyclic_def
  proof (intro allI notI)
    fix x assume xx: "(x, x) \<in> ?r\<^sup>+"
    then have c: "(x, x) \<in> ?R\<^sup>+" using trancl_mono [OF _ rsub] by blast
    from xx obtain z where "(x, z) \<in> ?r" by (auto dest: tranclD)
    then have "(k, x) \<in> ?R\<^sup>+" by auto
    then have "(k, x) \<in> ?R\<^sup>*" by simp
    then show False using nc c by (auto simp: cycle_from_def)
  qed
  have conv: "{(b, a). a \<in> ?A \<and> b \<in> adjs adj ?vs a} = ?r\<inverse>" by auto
  have wfR: "wf {(b, a). a \<in> ?A \<and> b \<in> adjs adj ?vs a}"
    unfolding conv using finr acyc by (rule finite_acyclic_wf_converse)
  have closed: "\<And>a b. a \<in> ?A \<Longrightarrow> b \<in> adjs adj ?vs a \<Longrightarrow> b \<in> ?A"
    by (auto simp: adj_rel_def intro: trancl_into_trancl)
  have present: "\<And>a. a \<in> ?A \<Longrightarrow> map_of ?vs a \<noteq> None"
    using Akeys by (auto simp: map_of_eq_None_iff)
  have start: "set (rev (iter (adj vx))) \<subseteq> ?A"
    using it [OF vx] vx by (auto simp: adj_rel_def adjs_def)
  have "work_loop adj iter ?vs (rev (iter (adj vx))) {}
      = Some (Inr ({} \<union> ?R\<^sup>* `` set (rev (iter (adj vx)))))"
    using wfR closed present it start by (rule work_loop_terminates)
  moreover have "?R\<^sup>* `` set (rev (iter (adj vx))) = ?A"
    using trancl_Image_step [of ?R k] it [OF vx] vx by (simp add: adj_rel_Image adjs_def)
  ultimately show "get_all adj iter g k = Some (Inr (iter ?A))"
    using vx by (simp add: get_all_def)
  show "set (iter ?A) = ?A" "distinct (iter ?A)"
    using ord finA by (simp_all add: set_order_def)
  show "k \<notin> ?A" using nc by (auto simp: cycle_from_def)
qed

text \<open>The call does not return when a cycle can be reached.\<close>

lemma get_all_None:
  assumes adj: "\<And>a vx. map_of (vertices g) a = Some vx \<Longrightarrow>
        finite (adj vx) \<and> adj vx \<subseteq> fst ` set (vertices g)"
    and ord: "set_order iter"
    and k: "contains_graph g k"
    and cyc: "cycle_from (adj_rel adj (vertices g)) k"
  shows "get_all adj iter g k = None"
proof (rule ccontr)
  let ?vs = "vertices g" and ?R = "adj_rel adj (vertices g)"
  assume ne: "get_all adj iter g k \<noteq> None"
  obtain vx where vx: "map_of ?vs k = Some vx" using k by (auto simp: contains_graph_def)
  have it: "\<And>a vx. map_of ?vs a = Some vx \<Longrightarrow> set (iter (adj vx)) = adj vx"
    using adj ord by (simp add: set_order_def)
  from ne vx obtain y where y: "work_loop adj iter ?vs (rev (iter (adj vx))) {} = Some y"
    by (auto simp: get_all_def split: option.splits)
  have "set (rev (iter (adj vx))) \<subseteq> fst ` set ?vs" using it [OF vx] adj [OF vx] by simp
  moreover have "\<forall>a vx. map_of ?vs a = Some vx \<longrightarrow> set (iter (adj vx)) \<subseteq> fst ` set ?vs"
    using it adj by simp
  ultimately obtain r where r: "y = Inr r" using work_loop_no_KeyError [OF y] by blast
  have nc: "\<forall>x\<in>set (rev (iter (adj vx))). \<not> cycle_from ?R x"
    using work_loop_Inr_no_cycle [OF y] it r by blast
  obtain s where s: "(k, s) \<in> ?R" "cycle_from ?R s" using cycle_from_succ [OF cyc] by blast
  have "s \<in> adj vx" using s(1) vx by (simp add: adj_rel_def adjs_def)
  then show False using nc s(2) it [OF vx] by simp
qed

lemma adj_rel_successors: "adj_rel successors (vertices g) = edges g"
  by (simp add: adj_rel_def edges_def adjs_def succs_def)

lemma adj_rel_predecessors:
  "wf_graph g \<Longrightarrow> adj_rel predecessors (vertices g) = (edges g)\<inverse>"
  by (auto simp: adj_rel_def edges_def adjs_def succs_def preds_def wf_graph_def wf_vertices_def)

lemma wf_graph_successors:
  "wf_graph g \<Longrightarrow> map_of (vertices g) a = Some vx \<Longrightarrow>
     finite (successors vx) \<and> successors vx \<subseteq> fst ` set (vertices g)"
  unfolding wf_graph_def wf_vertices_def by blast

lemma wf_graph_predecessors:
  "wf_graph g \<Longrightarrow> map_of (vertices g) a = Some vx \<Longrightarrow>
     finite (predecessors vx) \<and> predecessors vx \<subseteq> fst ` set (vertices g)"
  unfolding wf_graph_def wf_vertices_def by blast

lemma set_order_sorted_list: "set_order (sorted_list_of_set :: nat set \<Rightarrow> nat list)"
  by (simp add: set_order_def)


lemma vertices_graph_loop:
  "vertices graph_loop = [(1, \<lparr>key = 1, vvalue = (), successors = {1}, predecessors = {1}\<rparr>)]"
  by (simp add: graph_loop_def add_vertex_def add_edge_def add_edge_to_def contains_graph_def
      DAGraph_init_def DAGraphVertex_init_def)

lemma vertices_graph_chain2:
  "vertices graph_chain2 =
     [(1, \<lparr>key = 1, vvalue = (), successors = {2}, predecessors = {}\<rparr>),
      (2, \<lparr>key = 2, vvalue = (), successors = {}, predecessors = {1}\<rparr>)]"
  unfolding graph_chain2_def add_edge_graph12 by simp

lemma vertices_graph_cycle2:
  "vertices graph_cycle2 =
     [(1, \<lparr>key = 1, vvalue = (), successors = {2}, predecessors = {2}\<rparr>),
      (2, \<lparr>key = 2, vvalue = (), successors = {1}, predecessors = {1}\<rparr>)]"
  unfolding graph_cycle2_def add_edge_graph12
  by (simp add: add_edge_def add_edge_to_def contains_graph_def)

lemma wf_graph_loop: "wf_graph graph_loop"
  unfolding graph_loop_def by (intro wf_graph_add_edge wf_graph_add_vertex wf_graph_init)

lemma wf_graph_chain2: "wf_graph graph_chain2"
  unfolding graph_chain2_def by (intro wf_graph_add_edge reachable_wf reachable_graph12)

lemma wf_graph_cycle2: "wf_graph graph_cycle2"
  unfolding graph_cycle2_def by (intro wf_graph_add_edge reachable_wf reachable_graph12)

lemma edges_graph_loop: "edges graph_loop = {(1, 1)}"
  by (auto simp: edges_def succs_def vertices_graph_loop split: if_splits)

lemma edges_graph_chain2: "edges graph_chain2 = {(1, 2)}"
  by (auto simp: edges_def succs_def vertices_graph_chain2 split: if_splits)

lemma edges_graph_cycle2: "edges graph_cycle2 = {(1, 2), (2, 1)}"
  by (auto simp: edges_def succs_def vertices_graph_cycle2 split: if_splits)

lemma no_loop_single: "a \<noteq> b \<Longrightarrow> (c, c) \<notin> {(a, b)}\<^sup>+"
proof
  assume ab: "a \<noteq> b" and cc: "(c, c) \<in> {(a, b)}\<^sup>+"
  from cc have "c = a" by (auto dest: tranclD)
  moreover from cc have "c = b" by (auto dest: tranclD2)
  ultimately show False using ab by simp
qed

lemma no_cycle_chain2: "\<not> cycle_from (edges graph_chain2) k" "\<not> cycle_from ((edges graph_chain2)\<inverse>) k"
proof -
  have "\<And>c. (c, c) \<notin> {(1 :: nat, 2 :: nat)}\<^sup>+"
    by (rule no_loop_single) simp
  moreover have "({(1 :: nat, 2 :: nat)}\<inverse>) = {(2, 1)}" by auto
  then have "\<And>c. (c, c) \<notin> ({(1 :: nat, 2 :: nat)}\<inverse>)\<^sup>+"
    using no_loop_single [of "2 :: nat" 1] by simp
  ultimately show "\<not> cycle_from (edges graph_chain2) k" "\<not> cycle_from ((edges graph_chain2)\<inverse>) k"
    unfolding cycle_from_def edges_graph_chain2 by blast+
qed

text \<open>
  C2 (as amended). For every graph built through the interface, every iteration order
  of the sets and every key \<open>k\<close> of the graph: when no cycle can be reached from \<open>k\<close>
  along successor edges, \<^verbatim>\<open>get_all_successors(k)\<close> returns a list without repeats whose
  elements are exactly the vertices reachable from \<open>k\<close> by one or more successor edges,
  and \<open>k\<close> is not among them; likewise \<^verbatim>\<open>get_all_predecessors(k)\<close> for predecessor
  edges.
\<close>

theorem C2_get_all_transitive_closure:
  assumes "wf_graph g" and "set_order iter" and "contains_graph g k"
  shows "(\<not> cycle_from (edges g) k \<longrightarrow>
            (\<exists>xs. get_all_successors iter g k = Some (Inr xs) \<and>
                  set xs = {v. (k, v) \<in> (edges g)\<^sup>+} \<and> distinct xs \<and> k \<notin> set xs)) \<and>
         (\<not> cycle_from ((edges g)\<inverse>) k \<longrightarrow>
            (\<exists>xs. get_all_predecessors iter g k = Some (Inr xs) \<and>
                  set xs = {v. (v, k) \<in> (edges g)\<^sup>+} \<and> distinct xs \<and> k \<notin> set xs))"
proof (intro conjI impI)
  assume nc: "\<not> cycle_from (edges g) k"
  have a: "\<And>a vx. map_of (vertices g) a = Some vx \<Longrightarrow>
      finite (successors vx) \<and> successors vx \<subseteq> fst ` set (vertices g)"
    using assms(1) by (rule wf_graph_successors)
  have nc': "\<not> cycle_from (adj_rel successors (vertices g)) k"
    using nc by (simp add: adj_rel_successors)
  note r = get_all_returns [of g successors, OF a assms(2,3) nc', unfolded adj_rel_successors]
  have "(edges g)\<^sup>+ `` {k} = {v. (k, v) \<in> (edges g)\<^sup>+}" by auto
  then show "\<exists>xs. get_all_successors iter g k = Some (Inr xs) \<and>
      set xs = {v. (k, v) \<in> (edges g)\<^sup>+} \<and> distinct xs \<and> k \<notin> set xs"
    using r by (auto simp: get_all_successors_def)
next
  assume nc: "\<not> cycle_from ((edges g)\<inverse>) k"
  have a: "\<And>a vx. map_of (vertices g) a = Some vx \<Longrightarrow>
      finite (predecessors vx) \<and> predecessors vx \<subseteq> fst ` set (vertices g)"
    using assms(1) by (rule wf_graph_predecessors)
  note e = adj_rel_predecessors [OF assms(1)]
  have nc': "\<not> cycle_from (adj_rel predecessors (vertices g)) k"
    using nc by (simp add: e)
  note r = get_all_returns [of g predecessors, OF a assms(2,3) nc', unfolded e]
  have "((edges g)\<inverse>)\<^sup>+ `` {k} = {v. (v, k) \<in> (edges g)\<^sup>+}"
    by (auto simp: trancl_converse)
  then show "\<exists>xs. get_all_predecessors iter g k = Some (Inr xs) \<and>
      set xs = {v. (v, k) \<in> (edges g)\<^sup>+} \<and> distinct xs \<and> k \<notin> set xs"
    using r by (auto simp: get_all_predecessors_def)
qed

theorem C2_get_all_transitive_closure_witness:
  "wf_graph graph_chain2 \<and> set_order (sorted_list_of_set :: nat set \<Rightarrow> nat list) \<and>
   contains_graph graph_chain2 1 \<and>
   \<not> cycle_from (edges graph_chain2) 1 \<and> \<not> cycle_from ((edges graph_chain2)\<inverse>) 1 \<and>
   (\<exists>xs. get_all_successors sorted_list_of_set graph_chain2 1 = Some (Inr xs) \<and>
         set xs = {v. (1, v) \<in> (edges graph_chain2)\<^sup>+} \<and> distinct xs \<and> 1 \<notin> set xs) \<and>
   (\<exists>xs. get_all_predecessors sorted_list_of_set graph_chain2 1 = Some (Inr xs) \<and>
         set xs = {v. (v, 1) \<in> (edges graph_chain2)\<^sup>+} \<and> distinct xs \<and> 1 \<notin> set xs) \<and>
   (1, 2) \<in> (edges graph_chain2)\<^sup>+"
proof -
  have c: "contains_graph graph_chain2 1"
    by (simp add: contains_graph_def vertices_graph_chain2)
  have e: "(1, 2) \<in> (edges graph_chain2)\<^sup>+" unfolding edges_graph_chain2 by blast
  show ?thesis
    using C2_get_all_transitive_closure [OF wf_graph_chain2 set_order_sorted_list c]
      wf_graph_chain2 set_order_sorted_list c no_cycle_chain2 [of 1] e
    by blast
qed

theorem C2_get_all_successors_self_loop_counterexample:
  "contains_graph graph_loop 1 \<and> get_all_successors sorted_list_of_set graph_loop 1 = None"
proof -
  have c: "contains_graph graph_loop 1"
    by (simp add: contains_graph_def vertices_graph_loop)
  have "(1, 1) \<in> (edges graph_loop)\<^sup>+" by (simp add: edges_graph_loop)
  then have cyc: "cycle_from (adj_rel successors (vertices graph_loop)) 1"
    unfolding adj_rel_successors cycle_from_def by blast
  have a: "\<And>a vx. map_of (vertices graph_loop) a = Some vx \<Longrightarrow>
      finite (successors vx) \<and> successors vx \<subseteq> fst ` set (vertices graph_loop)"
    using wf_graph_loop by (rule wf_graph_successors)
  show ?thesis
    using get_all_None [of graph_loop successors, OF a set_order_sorted_list c cyc] c
    by (simp add: get_all_successors_def)
qed

text \<open>
  C3 (as amended). For every graph built through the interface and every key \<open>k\<close> of
  it, \<^verbatim>\<open>get_all_successors(k)\<close> returns if and only if no cycle can be reached from
  \<open>k\<close> along successor edges, and \<^verbatim>\<open>get_all_predecessors(k)\<close> if and only if none can be
  reached along predecessor edges: the loop pushes the neighbours of every vertex it pops
  and never consults the set of vertices already seen.
\<close>

theorem C3_get_all_terminates_iff_no_cycle:
  assumes "wf_graph g" and "set_order iter" and "contains_graph g k"
  shows "(get_all_successors iter g k \<noteq> None \<longleftrightarrow> \<not> cycle_from (edges g) k) \<and>
         (get_all_predecessors iter g k \<noteq> None \<longleftrightarrow> \<not> cycle_from ((edges g)\<inverse>) k)"
proof -
  have a: "\<And>a vx. map_of (vertices g) a = Some vx \<Longrightarrow>
      finite (successors vx) \<and> successors vx \<subseteq> fst ` set (vertices g)"
    using assms(1) by (rule wf_graph_successors)
  have b: "\<And>a vx. map_of (vertices g) a = Some vx \<Longrightarrow>
      finite (predecessors vx) \<and> predecessors vx \<subseteq> fst ` set (vertices g)"
    using assms(1) by (rule wf_graph_predecessors)
  note e = adj_rel_predecessors [OF assms(1)]
  have s1: "\<not> cycle_from (edges g) k \<Longrightarrow> get_all_successors iter g k \<noteq> None"
    using get_all_returns(1) [of g successors, OF a assms(2,3)]
    by (simp add: adj_rel_successors get_all_successors_def)
  have s2: "cycle_from (edges g) k \<Longrightarrow> get_all_successors iter g k = None"
    using get_all_None [of g successors, OF a assms(2,3)]
    by (simp add: adj_rel_successors get_all_successors_def)
  have p1: "\<not> cycle_from ((edges g)\<inverse>) k \<Longrightarrow> get_all_predecessors iter g k \<noteq> None"
    using get_all_returns(1) [of g predecessors, OF b assms(2,3)]
    by (simp add: e get_all_predecessors_def)
  have p2: "cycle_from ((edges g)\<inverse>) k \<Longrightarrow> get_all_predecessors iter g k = None"
    using get_all_None [of g predecessors, OF b assms(2,3)]
    by (simp add: e get_all_predecessors_def)
  show ?thesis using s1 s2 p1 p2 by auto
qed

theorem C3_get_all_terminates_iff_no_cycle_witness:
  "wf_graph graph_chain2 \<and> set_order (sorted_list_of_set :: nat set \<Rightarrow> nat list) \<and>
   contains_graph graph_chain2 2 \<and>
   get_all_successors sorted_list_of_set graph_chain2 2 \<noteq> None \<and>
   \<not> cycle_from (edges graph_chain2) 2 \<and>
   get_all_predecessors sorted_list_of_set graph_chain2 2 \<noteq> None \<and>
   \<not> cycle_from ((edges graph_chain2)\<inverse>) 2"
proof -
  have c: "contains_graph graph_chain2 2"
    by (simp add: contains_graph_def vertices_graph_chain2)
  show ?thesis
    using C3_get_all_terminates_iff_no_cycle [OF wf_graph_chain2 set_order_sorted_list c]
      wf_graph_chain2 set_order_sorted_list c no_cycle_chain2 [of 2]
    by blast
qed

theorem C3_get_all_two_cycle_counterexample:
  "contains_graph graph_cycle2 1 \<and>
   get_all_successors sorted_list_of_set graph_cycle2 1 = None \<and>
   get_all_predecessors sorted_list_of_set graph_cycle2 1 = None"
proof -
  have c: "contains_graph graph_cycle2 1"
    by (simp add: contains_graph_def vertices_graph_cycle2)
  have "(1, 2) \<in> edges graph_cycle2" "(2, 1) \<in> edges graph_cycle2"
    by (simp_all add: edges_graph_cycle2)
  then have t: "(1, 1) \<in> (edges graph_cycle2)\<^sup>+" by (meson trancl.intros)
  then have t': "(1, 1) \<in> ((edges graph_cycle2)\<inverse>)\<^sup>+" by (simp add: trancl_converse)
  have cs: "cycle_from (adj_rel successors (vertices graph_cycle2)) 1"
    unfolding adj_rel_successors cycle_from_def using t by blast
  have cp: "cycle_from (adj_rel predecessors (vertices graph_cycle2)) 1"
    unfolding adj_rel_predecessors [OF wf_graph_cycle2] cycle_from_def using t' by blast
  have a: "\<And>a vx. map_of (vertices graph_cycle2) a = Some vx \<Longrightarrow>
      finite (successors vx) \<and> successors vx \<subseteq> fst ` set (vertices graph_cycle2)"
    using wf_graph_cycle2 by (rule wf_graph_successors)
  have b: "\<And>a vx. map_of (vertices graph_cycle2) a = Some vx \<Longrightarrow>
      finite (predecessors vx) \<and> predecessors vx \<subseteq> fst ` set (vertices graph_cycle2)"
    using wf_graph_cycle2 by (rule wf_graph_predecessors)
  show ?thesis
    using get_all_None [of graph_cycle2 successors, OF a set_order_sorted_list c cs]
      get_all_None [of graph_cycle2 predecessors, OF b set_order_sorted_list c cp] c
    by (simp add: get_all_successors_def get_all_predecessors_def)
qed

section \<open>Tarjan's algorithm\<close>

subsection \<open>The invariants, piecewise\<close>

lemma tinvI:
  assumes "stack_inv (tstack st)"
    and "visited st = set (stack_of st) \<union> closed st"
    and "set (stack_of st) \<inter> closed st = {}"
    and "visited st \<subseteq> fst ` set vs"
    and "\<forall>x\<in>visited st. num st x < idx st"
    and "\<forall>a\<in>closed st. succs vs a \<subseteq> closed st"
    and "\<forall>c\<in>set (scc_list st). \<exists>u. set c = scc_of (succ_rel vs) u"
    and "distinct (concat (scc_list st))"
    and "G \<subseteq> set (stack_of st)"
    and "\<forall>y\<in>set (stack_of st). \<exists>g\<in>G. (y, g) \<in> (succ_rel vs)\<^sup>*"
    and "\<forall>a\<in>visited st - G. succs vs a \<subseteq> visited st"
  shows "tinv vs G st"
  unfolding tinv_def using assms by (intro conjI)

lemma tinvD:
  assumes "tinv vs G st"
  shows tinv_stack: "stack_inv (tstack st)"
    and tinv_visited: "visited st = set (stack_of st) \<union> closed st"
    and tinv_disj: "set (stack_of st) \<inter> closed st = {}"
    and tinv_keys: "visited st \<subseteq> fst ` set vs"
    and tinv_num: "\<forall>x\<in>visited st. num st x < idx st"
    and tinv_closed: "\<forall>a\<in>closed st. succs vs a \<subseteq> closed st"
    and tinv_scc: "\<forall>c\<in>set (scc_list st). \<exists>u. set c = scc_of (succ_rel vs) u"
    and tinv_distinct: "distinct (concat (scc_list st))"
    and tinv_gray: "G \<subseteq> set (stack_of st)"
    and tinv_reach: "\<forall>y\<in>set (stack_of st). \<exists>g\<in>G. (y, g) \<in> (succ_rel vs)\<^sup>*"
    and tinv_black: "\<forall>a\<in>visited st - G. succs vs a \<subseteq> visited st"
  using assms unfolding tinv_def by blast+

lemma tpostI:
  assumes "tinv vs G st'"
    and "\<forall>x\<in>visited st. node_st st' x = node_st st x"
    and "visited st \<subseteq> visited st'"
    and "v \<in> visited st'"
    and "\<forall>x\<in>visited st' - visited st. idx st \<le> num st' x"
    and "\<exists>new. stack_of st' = new @ stack_of st \<and> set new \<inter> visited st = {} \<and>
         (if new = [] then low st' v = num st' v
          else v \<in> set new \<and> (\<forall>y\<in>set new. (v, y) \<in> (succ_rel vs)\<^sup>*) \<and>
               (\<exists>x\<in>set (stack_of st). num st' x = low st' v \<and> (v, x) \<in> (succ_rel vs)\<^sup>*) \<and>
               (\<forall>y\<in>set new. \<forall>z\<in>set (stack_of st). z \<in> succs vs y \<longrightarrow> low st' v \<le> num st' z))"
  shows "tpost vs G v st st'"
  unfolding tpost_def using assms by (intro conjI)

lemma tpostD:
  assumes "tpost vs G v st st'"
  shows tpost_inv: "tinv vs G st'"
    and tpost_frame: "\<forall>x\<in>visited st. node_st st' x = node_st st x"
    and tpost_mono: "visited st \<subseteq> visited st'"
    and tpost_v: "v \<in> visited st'"
    and tpost_new: "\<forall>x\<in>visited st' - visited st. idx st \<le> num st' x"
    and tpost_shape: "\<exists>new. stack_of st' = new @ stack_of st \<and> set new \<inter> visited st = {} \<and>
         (if new = [] then low st' v = num st' v
          else v \<in> set new \<and> (\<forall>y\<in>set new. (v, y) \<in> (succ_rel vs)\<^sup>*) \<and>
               (\<exists>x\<in>set (stack_of st). num st' x = low st' v \<and> (v, x) \<in> (succ_rel vs)\<^sup>*) \<and>
               (\<forall>y\<in>set new. \<forall>z\<in>set (stack_of st). z \<in> succs vs y \<longrightarrow> low st' v \<le> num st' z))"
  using assms unfolding tpost_def by blast+

lemma loop_invI:
  assumes "tinv vs (insert v G) st"
    and "v \<in> fst ` set vs"
    and "\<forall>x\<in>visited st0. node_st st x = node_st st0 x"
    and "visited st0 \<subseteq> visited st"
    and "v \<notin> visited st0"
    and "v \<in> visited st"
    and "\<forall>x\<in>visited st - visited st0. idx st0 \<le> num st x"
    and "\<forall>x\<in>visited st0. num st0 x < idx st0"
    and "low st v \<le> num st v"
    and "\<exists>new. stack_of st = new @ v # stack_of st0 \<and> set new \<inter> visited st0 = {} \<and>
         (\<forall>y\<in>set new. (v, y) \<in> (succ_rel vs)\<^sup>* \<and> num st v < num st y) \<and>
         (\<forall>y\<in>set new. \<forall>z\<in>set (stack_of st0). z \<in> succs vs y \<longrightarrow> low st v \<le> num st z)"
    and "\<exists>x\<in>insert v (set (stack_of st0)). num st x = low st v \<and> (v, x) \<in> (succ_rel vs)\<^sup>*"
    and "\<forall>w\<in>P. w \<in> visited st \<and> (w \<in> set (stack_of st0) \<longrightarrow> low st v \<le> num st w)"
    and "G \<subseteq> set (stack_of st0)"
    and "\<forall>y\<in>set (stack_of st0). \<exists>g\<in>G. (y, g) \<in> (succ_rel vs)\<^sup>*"
    and "set (stack_of st0) \<subseteq> visited st0"
  shows "loop_inv vs G v st0 P st"
  unfolding loop_inv_def using assms by (intro conjI)

lemma loop_invD:
  assumes "loop_inv vs G v st0 P st"
  shows loop_inv_inv: "tinv vs (insert v G) st"
    and loop_inv_key: "v \<in> fst ` set vs"
    and loop_inv_frame: "\<forall>x\<in>visited st0. node_st st x = node_st st0 x"
    and loop_inv_mono: "visited st0 \<subseteq> visited st"
    and loop_inv_fresh: "v \<notin> visited st0"
    and loop_inv_v: "v \<in> visited st"
    and loop_inv_new: "\<forall>x\<in>visited st - visited st0. idx st0 \<le> num st x"
    and loop_inv_old: "\<forall>x\<in>visited st0. num st0 x < idx st0"
    and loop_inv_low: "low st v \<le> num st v"
    and loop_inv_shape: "\<exists>new. stack_of st = new @ v # stack_of st0 \<and> set new \<inter> visited st0 = {} \<and>
         (\<forall>y\<in>set new. (v, y) \<in> (succ_rel vs)\<^sup>* \<and> num st v < num st y) \<and>
         (\<forall>y\<in>set new. \<forall>z\<in>set (stack_of st0). z \<in> succs vs y \<longrightarrow> low st v \<le> num st z)"
    and loop_inv_link: "\<exists>x\<in>insert v (set (stack_of st0)). num st x = low st v \<and> (v, x) \<in> (succ_rel vs)\<^sup>*"
    and loop_inv_done: "\<forall>w\<in>P. w \<in> visited st \<and> (w \<in> set (stack_of st0) \<longrightarrow> low st v \<le> num st w)"
    and loop_inv_gray: "G \<subseteq> set (stack_of st0)"
    and loop_inv_reach: "\<forall>y\<in>set (stack_of st0). \<exists>g\<in>G. (y, g) \<in> (succ_rel vs)\<^sup>*"
    and loop_inv_base: "set (stack_of st0) \<subseteq> visited st0"
  using assms unfolding loop_inv_def by blast+


subsection \<open>The statements of strongconnect\<close>

lemma strongconnect_Suc:
  assumes "v \<notin> stackset (tstack st)" and "map_of vs v = Some vx"
  shows "strongconnect (Suc d) iter vs v st =
     (case visit d iter vs v (iter (successors vx)) (enter v st) of
        Inl err \<Rightarrow> Inl err
      | Inr st3 \<Rightarrow> leave v st3)"
  using assms by (simp add: push_def enter_def leave_def Let_def split: sum.splits)

lemma visit_new:
  assumes "w \<notin> visited st"
  shows "visit d iter vs v (w # ws) st =
     (case strongconnect d iter vs w st of
        Inl err \<Rightarrow> Inl err
      | Inr st' \<Rightarrow>
          if v \<in> visited st' \<and> w \<in> visited st'
          then visit d iter vs v ws (lower v (low st' w) st')
          else Inl (KeyError (if v \<in> visited st' then w else v)))"
  using assms
  by (auto simp: visited_def lower_def num_def low_def split: sum.splits option.splits)

lemma visit_on_stack:
  assumes "w \<in> visited st" and "contains_stack (tstack st) w" and "v \<in> visited st"
  shows "visit d iter vs v (w # ws) st = visit d iter vs v ws (lower v (num st w) st)"
  using assms
  by (auto simp: visited_def lower_def num_def low_def split: sum.splits option.splits)

lemma visit_off_stack:
  assumes "w \<in> visited st" and "\<not> contains_stack (tstack st) w"
  shows "visit d iter vs v (w # ws) st = visit d iter vs v ws st"
  using assms by (auto simp: visited_def)

subsection \<open>Readings of the changed states\<close>

lemma lower_simps [simp]:
  "visited (lower v m st) = insert v (visited st)"
  "idx (lower v m st) = idx st"
  "tstack (lower v m st) = tstack st"
  "stack_of (lower v m st) = stack_of st"
  "scc_list (lower v m st) = scc_list st"
  "closed (lower v m st) = closed st"
  "num (lower v m st) x = num st x"
  "low (lower v m st) x = (if x = v then min (low st v) m else low st x)"
  "x \<noteq> v \<Longrightarrow> node_st (lower v m st) x = node_st st x"
  by (auto simp: lower_def visited_def stack_of_def closed_def num_def low_def)

lemma enter_simps [simp]:
  "visited (enter v st) = insert v (visited st)"
  "idx (enter v st) = Suc (idx st)"
  "scc_list (enter v st) = scc_list st"
  "closed (enter v st) = closed st"
  "num (enter v st) x = (if x = v then idx st else num st x)"
  "low (enter v st) x = (if x = v then idx st else low st x)"
  "x \<noteq> v \<Longrightarrow> node_st (enter v st) x = node_st st x"
  by (auto simp: enter_def visited_def closed_def num_def low_def)

lemma enter_stack:
  "v \<notin> stackset (tstack st) \<Longrightarrow> stack_of (enter v st) = v # stack_of st"
  "v \<notin> stackset (tstack st) \<Longrightarrow> stackset (tstack (enter v st)) = insert v (stackset (tstack st))"
  by (auto simp: enter_def stack_of_def push_def)

lemma pop_scc_segment:
  assumes "stack s = new @ v # rest" and "v \<notin> set new"
  shows "pop_scc v s scc =
     Inr (scc @ new @ [v], s\<lparr>stack := rest, stackset := stackset s - set new - {v}\<rparr>)"
  using assms
proof (induction new arbitrary: s scc)
  case Nil
  then show ?case by (subst pop_scc.simps) (simp add: pop_def)
next
  case (Cons a new)
  let ?s' = "s\<lparr>stack := new @ v # rest, stackset := stackset s - {a}\<rparr>"
  have p: "pop s = (Inr a, ?s')" using Cons.prems by (simp add: pop_def)
  have av: "a \<noteq> v" using Cons.prems by auto
  have ih: "pop_scc v ?s' (scc @ [a]) =
      Inr ((scc @ [a]) @ new @ [v], ?s'\<lparr>stack := rest, stackset := stackset ?s' - set new - {v}\<rparr>)"
    using Cons.prems by (intro Cons.IH) auto
  have e: "stackset s - {a} - set new - {v} = stackset s - set (a # new) - {v}" by auto
  have "pop_scc v s scc = pop_scc v ?s' (scc @ [a])"
    using p av by (subst pop_scc.simps) simp
  then show ?case unfolding ih using e by simp
qed

lemma pop_scc_error: "pop_scc v s scc = Inl e \<Longrightarrow> e = IndexError"
proof (induction v s scc rule: pop_scc.induct)
  case (1 v s scc)
  show ?case
  proof (cases "stack s")
    case Nil
    then show ?thesis using "1.prems" by (subst (asm) pop_scc.simps) (simp add: pop_def)
  next
    case (Cons w rest)
    let ?s' = "s\<lparr>stack := rest, stackset := stackset s - {w}\<rparr>"
    have p: "pop s = (Inr w, ?s')" using Cons by (simp add: pop_def)
    show ?thesis
    proof (cases "w = v")
      case True
      then show ?thesis using "1.prems" p by (subst (asm) pop_scc.simps) simp
    next
      case False
      then have "pop_scc v ?s' (scc @ [w]) = Inl e"
        using "1.prems" p by (subst (asm) pop_scc.simps) simp
      then show ?thesis using "1.IH" [OF p [symmetric] refl False] by simp
    qed
  qed
qed

subsection \<open>Entering a vertex\<close>

lemma succ_rel_iff [simp]: "(a, b) \<in> succ_rel vs \<longleftrightarrow> b \<in> succs vs a"
  by (simp add: succ_rel_def)

lemma tinv_stackset:
  assumes "tinv vs G st"
  shows "stackset (tstack st) = set (stack_of st)" and "distinct (stack_of st)"
    and "set (stack_of st) \<subseteq> visited st"
  using tinvD(1,2) [OF assms] by (auto simp: stack_inv_def stack_of_def)

lemma enter_loop_inv:
  assumes inv: "tinv vs G st" and key: "v \<in> fst ` set vs" and fresh: "v \<notin> visited st"
  shows "loop_inv vs G v st {} (enter v st)"
proof -
  note I = tinvD [OF inv]
  note S = tinv_stackset [OF inv]
  have vs: "v \<notin> stackset (tstack st)" using S fresh by auto
  have st1: "stack_of (enter v st) = v # stack_of st" using vs by (rule enter_stack)
  have ts: "tstack (enter v st) = snd (push v (tstack st))" by (simp add: enter_def)
  have nc: "v \<notin> closed st" using I(2) fresh by auto
  have "tinv vs (insert v G) (enter v st)"
  proof (rule tinvI)
    show "stack_inv (tstack (enter v st))" unfolding ts using I(1) by (rule push_inv)
    show "visited (enter v st) = set (stack_of (enter v st)) \<union> closed (enter v st)"
      using I(2) by (simp add: st1)
    show "set (stack_of (enter v st)) \<inter> closed (enter v st) = {}"
      using I(3) nc by (simp add: st1)
    show "visited (enter v st) \<subseteq> fst ` set vs" using I(4) key by simp
    show "\<forall>x\<in>visited (enter v st). num (enter v st) x < idx (enter v st)"
      using I(5) by (auto simp: less_Suc_eq)
    show "\<forall>a\<in>closed (enter v st). succs vs a \<subseteq> closed (enter v st)" using I(6) by simp
    show "\<forall>c\<in>set (scc_list (enter v st)). \<exists>u. set c = scc_of (succ_rel vs) u"
      using I(7) by simp
    show "distinct (concat (scc_list (enter v st)))" using I(8) by simp
    show "insert v G \<subseteq> set (stack_of (enter v st))" using I(9) by (auto simp: st1)
    show "\<forall>y\<in>set (stack_of (enter v st)). \<exists>g\<in>insert v G. (y, g) \<in> (succ_rel vs)\<^sup>*"
      using I(10) by (auto simp: st1)
    show "\<forall>a\<in>visited (enter v st) - insert v G. succs vs a \<subseteq> visited (enter v st)"
      using I(11) by auto
  qed
  then show ?thesis
  proof (rule loop_invI)
    show "v \<in> fst ` set vs" by (rule key)
    show "\<forall>x\<in>visited st. node_st (enter v st) x = node_st st x"
      using fresh by (auto simp: enter_def)
    show "visited st \<subseteq> visited (enter v st)" by auto
    show "v \<notin> visited st" by (rule fresh)
    show "v \<in> visited (enter v st)" by simp
    show "\<forall>x\<in>visited (enter v st) - visited st. idx st \<le> num (enter v st) x" by auto
    show "\<forall>x\<in>visited st. num st x < idx st" by (rule I(5))
    show "low (enter v st) v \<le> num (enter v st) v" by simp
    show "\<exists>new. stack_of (enter v st) = new @ v # stack_of st \<and> set new \<inter> visited st = {} \<and>
         (\<forall>y\<in>set new. (v, y) \<in> (succ_rel vs)\<^sup>* \<and> num (enter v st) v < num (enter v st) y) \<and>
         (\<forall>y\<in>set new. \<forall>z\<in>set (stack_of st). z \<in> succs vs y \<longrightarrow>
            low (enter v st) v \<le> num (enter v st) z)"
      by (rule exI [where x = "[]"]) (simp add: st1)
    show "\<exists>x\<in>insert v (set (stack_of st)). num (enter v st) x = low (enter v st) v \<and>
        (v, x) \<in> (succ_rel vs)\<^sup>*"
      by (rule bexI [where x = v]) simp_all
    show "\<forall>w\<in>{}. w \<in> visited (enter v st) \<and>
        (w \<in> set (stack_of st) \<longrightarrow> low (enter v st) v \<le> num (enter v st) w)" by simp
    show "G \<subseteq> set (stack_of st)" by (rule I(9))
    show "\<forall>y\<in>set (stack_of st). \<exists>g\<in>G. (y, g) \<in> (succ_rel vs)\<^sup>*" by (rule I(10))
    show "set (stack_of st) \<subseteq> visited st" by (rule S(3))
  qed
qed

subsection \<open>A successor that was visited before\<close>

lemma tinv_lower: "v \<in> visited st \<Longrightarrow> tinv vs G (lower v m st) = tinv vs G st"
  by (simp add: tinv_def insert_absorb)

lemma loop_inv_facts:
  assumes "loop_inv vs G v st0 P st"
  shows "\<forall>z\<in>set (stack_of st0). num st z < num st v"
    and "\<forall>x\<in>visited st0. num st x = num st0 x"
    and "idx st0 \<le> num st v"
    and "stackset (tstack st) = set (stack_of st)"
    and "distinct (stack_of st)"
    and "node_st st v = Some (num st v, low st v)"
    and "idx st0 \<le> idx st"
proof -
  note L = loop_invD [OF assms]
  note S = tinv_stackset [OF L(1)]
  show n: "\<forall>x\<in>visited st0. num st x = num st0 x" using L(3) by (simp add: num_def)
  show i: "idx st0 \<le> num st v" using L(5,6,7) by simp
  show "\<forall>z\<in>set (stack_of st0). num st z < num st v"
  proof
    fix z assume "z \<in> set (stack_of st0)"
    then have z: "z \<in> visited st0" using L(15) by auto
    then have "num st z = num st0 z" "num st0 z < idx st0" using n L(8) by auto
    then show "num st z < num st v" using i by simp
  qed
  show "stackset (tstack st) = set (stack_of st)" "distinct (stack_of st)" by (rule S)+
  show "node_st st v = Some (num st v, low st v)"
    using L(6) by (auto simp: visited_def num_def low_def)
  have "num st v < idx st" using tinvD(5) [OF L(1)] L(6) by simp
  then show "idx st0 \<le> idx st" using i by simp
qed

lemma lower_loop_inv:
  assumes L: "loop_inv vs G v st0 P st"
    and m: "low st v \<le> m \<or> (\<exists>x\<in>set (stack_of st0). num st x = m \<and> (v, x) \<in> (succ_rel vs)\<^sup>*)"
    and w: "w \<in> visited st" "w \<in> set (stack_of st0) \<longrightarrow> min (low st v) m \<le> num st w"
  shows "loop_inv vs G v st0 (insert w P) (lower v m st)"
proof (rule loop_invI)
  note D = loop_invD [OF L]
  let ?st = "lower v m st"
  have vis: "visited ?st = visited st" using D(6) by (simp add: insert_absorb)
  show "tinv vs (insert v G) ?st" using D(1,6) by (simp add: tinv_lower)
  show "v \<in> fst ` set vs" by (rule D(2))
  show "\<forall>x\<in>visited st0. node_st ?st x = node_st st0 x"
  proof
    fix x assume x: "x \<in> visited st0"
    then have "x \<noteq> v" using D(5) by auto
    then show "node_st ?st x = node_st st0 x" using D(3) x by simp
  qed
  show "visited st0 \<subseteq> visited ?st" unfolding vis by (rule D(4))
  show "v \<notin> visited st0" by (rule D(5))
  show "v \<in> visited ?st" by simp
  show "\<forall>x\<in>visited ?st - visited st0. idx st0 \<le> num ?st x" unfolding vis using D(7) by simp
  show "\<forall>x\<in>visited st0. num st0 x < idx st0" by (rule D(8))
  show "low ?st v \<le> num ?st v" using D(9) by simp
  show "\<exists>new. stack_of ?st = new @ v # stack_of st0 \<and> set new \<inter> visited st0 = {} \<and>
         (\<forall>y\<in>set new. (v, y) \<in> (succ_rel vs)\<^sup>* \<and> num ?st v < num ?st y) \<and>
         (\<forall>y\<in>set new. \<forall>z\<in>set (stack_of st0). z \<in> succs vs y \<longrightarrow> low ?st v \<le> num ?st z)"
  proof -
    from D(10) obtain new where new: "stack_of st = new @ v # stack_of st0"
      "set new \<inter> visited st0 = {}"
      "\<forall>y\<in>set new. (v, y) \<in> (succ_rel vs)\<^sup>* \<and> num st v < num st y"
      "\<forall>y\<in>set new. \<forall>z\<in>set (stack_of st0). z \<in> succs vs y \<longrightarrow> low st v \<le> num st z"
      by blast
    have "\<forall>y\<in>set new. \<forall>z\<in>set (stack_of st0). z \<in> succs vs y \<longrightarrow> low ?st v \<le> num ?st z"
      using new(4) by (auto simp: min_le_iff_disj)
    then show ?thesis using new(1,2,3) by (intro exI [where x = new]) simp
  qed
  show "\<exists>x\<in>insert v (set (stack_of st0)). num ?st x = low ?st v \<and> (v, x) \<in> (succ_rel vs)\<^sup>*"
  proof (cases "low st v \<le> m")
    case True
    then have "low ?st v = low st v" by (simp add: min_def)
    then show ?thesis using D(11) by simp
  next
    case False
    then have l: "low ?st v = m" by (simp add: min_def)
    from False m obtain x where "x \<in> set (stack_of st0)" "num st x = m"
      "(v, x) \<in> (succ_rel vs)\<^sup>*" by auto
    then show ?thesis unfolding l by auto
  qed
  show "\<forall>w\<in>insert w P. w \<in> visited ?st \<and> (w \<in> set (stack_of st0) \<longrightarrow> low ?st v \<le> num ?st w)"
    unfolding vis using D(12) w by (auto simp: min_le_iff_disj)
  show "G \<subseteq> set (stack_of st0)" by (rule D(13))
  show "\<forall>y\<in>set (stack_of st0). \<exists>g\<in>G. (y, g) \<in> (succ_rel vs)\<^sup>*" by (rule D(14))
  show "set (stack_of st0) \<subseteq> visited st0" by (rule D(15))
qed

lemma on_stack_loop_inv:
  assumes L: "loop_inv vs G v st0 P st" and e: "w \<in> succs vs v"
    and w: "w \<in> visited st" "contains_stack (tstack st) w"
  shows "loop_inv vs G v st0 (insert w P) (lower v (num st w) st)"
proof (rule lower_loop_inv [OF L _ w(1)])
  note D = loop_invD [OF L]
  note F = loop_inv_facts [OF L]
  from D(10) obtain new where new: "stack_of st = new @ v # stack_of st0"
    "\<forall>y\<in>set new. (v, y) \<in> (succ_rel vs)\<^sup>* \<and> num st v < num st y"
    by blast
  have "w \<in> set (stack_of st)" using w(2) F(4) by (simp add: contains_stack_def)
  then consider "w \<in> set new" | "w = v" | "w \<in> set (stack_of st0)" using new(1) by auto
  then show "low st v \<le> num st w \<or>
      (\<exists>x\<in>set (stack_of st0). num st x = num st w \<and> (v, x) \<in> (succ_rel vs)\<^sup>*)"
  proof cases
    case 1
    then have "num st v < num st w" using new(2) by simp
    then show ?thesis using D(9) by simp
  next
    case 2
    then show ?thesis using D(9) by simp
  next
    case 3
    have "(v, w) \<in> (succ_rel vs)\<^sup>*" using e by auto
    then show ?thesis using 3 by auto
  qed
  show "w \<in> set (stack_of st0) \<longrightarrow> min (low st v) (num st w) \<le> num st w" by simp
qed

lemma off_stack_loop_inv:
  assumes L: "loop_inv vs G v st0 P st"
    and w: "w \<in> visited st" "\<not> contains_stack (tstack st) w"
  shows "loop_inv vs G v st0 (insert w P) st"
proof -
  note D = loop_invD [OF L]
  note F = loop_inv_facts [OF L]
  from D(10) obtain new where new: "stack_of st = new @ v # stack_of st0" by blast
  have "w \<notin> set (stack_of st0)" using w(2) F(4) new by (simp add: contains_stack_def)
  then have "\<forall>w\<in>insert w P. w \<in> visited st \<and> (w \<in> set (stack_of st0) \<longrightarrow> low st v \<le> num st w)"
    using D(12) w(1) by simp
  then show ?thesis
    by (intro loop_invI D) 
qed

subsection \<open>A successor that is visited by a nested call\<close>

lemma tpost_num:
  assumes "tpost vs G w st st1" and "x \<in> visited st"
  shows "num st1 x = num st x" and "low st1 x = low st x"
  using tpostD(2) [OF assms(1)] assms(2) by (simp_all add: num_def low_def)

lemma child_loop_inv:
  assumes L: "loop_inv vs G v st0 P st" and e: "w \<in> succs vs v" and f: "w \<notin> visited st"
    and T: "tpost vs (insert v G) w st st1"
  shows "loop_inv vs G v st0 (insert w P) (lower v (low st1 w) st1)"
proof (rule loop_invI)
  note D = loop_invD [OF L]
  note F = loop_inv_facts [OF L]
  note Q = tpostD [OF T]
  note N = tpost_num [OF T]
  let ?m = "low st1 w"
  let ?st = "lower v ?m st1"
  have v1: "v \<in> visited st1" using D(6) Q(3) by auto
  have vis: "visited ?st = visited st1" using v1 by (simp add: insert_absorb)
  have nv: "num st1 v = num st v" and lv: "low st1 v = low st v" using N D(6) by auto
  have S0: "set (stack_of st0) \<subseteq> visited st" using D(15) D(4) by auto
  have vi: "num st v < idx st" using tinvD(5) [OF D(1)] D(6) by simp
  from D(10) obtain new where new: "stack_of st = new @ v # stack_of st0"
    "set new \<inter> visited st0 = {}"
    "\<forall>y\<in>set new. (v, y) \<in> (succ_rel vs)\<^sup>* \<and> num st v < num st y"
    "\<forall>y\<in>set new. \<forall>z\<in>set (stack_of st0). z \<in> succs vs y \<longrightarrow> low st v \<le> num st z"
    by blast
  have newv: "set new \<subseteq> visited st" using tinv_stackset(3) [OF D(1)] new(1) by auto
  from Q(6) obtain nw where nw: "stack_of st1 = nw @ stack_of st" "set nw \<inter> visited st = {}"
    and sh: "if nw = [] then low st1 w = num st1 w
          else w \<in> set nw \<and> (\<forall>y\<in>set nw. (w, y) \<in> (succ_rel vs)\<^sup>*) \<and>
               (\<exists>x\<in>set (stack_of st). num st1 x = low st1 w \<and> (w, x) \<in> (succ_rel vs)\<^sup>*) \<and>
               (\<forall>y\<in>set nw. \<forall>z\<in>set (stack_of st). z \<in> succs vs y \<longrightarrow> low st1 w \<le> num st1 z)"
    by blast
  have nwv: "set nw \<subseteq> visited st1" using tinv_stackset(3) [OF Q(1)] nw(1) by auto
  have nwnum: "\<forall>y\<in>set nw. num st v < num st1 y"
  proof
    fix y assume y: "y \<in> set nw"
    then have "y \<in> visited st1 - visited st" using nwv nw(2) by auto
    then have "idx st \<le> num st1 y" using Q(5) by simp
    then show "num st v < num st1 y" using vi by simp
  qed
  have vw: "(v, w) \<in> succ_rel vs" using e by simp
  show "tinv vs (insert v G) ?st" using Q(1) v1 by (simp add: tinv_lower)
  show "v \<in> fst ` set vs" by (rule D(2))
  show "\<forall>x\<in>visited st0. node_st ?st x = node_st st0 x"
  proof
    fix x assume x: "x \<in> visited st0"
    then have "x \<noteq> v" "x \<in> visited st" using D(5) D(4) by auto
    then show "node_st ?st x = node_st st0 x" using D(3) Q(2) x by simp
  qed
  show "visited st0 \<subseteq> visited ?st" unfolding vis using D(4) Q(3) by auto
  show "v \<notin> visited st0" by (rule D(5))
  show "v \<in> visited ?st" by simp
  show "\<forall>x\<in>visited ?st - visited st0. idx st0 \<le> num ?st x"
  proof
    fix x assume "x \<in> visited ?st - visited st0"
    then have x: "x \<in> visited st1" "x \<notin> visited st0" unfolding vis by auto
    show "idx st0 \<le> num ?st x"
    proof (cases "x \<in> visited st")
      case True
      then show ?thesis using D(7) x N(1) by simp
    next
      case False
      then have "idx st \<le> num st1 x" using Q(5) x by simp
      then show ?thesis using F(7) by simp
    qed
  qed
  show "\<forall>x\<in>visited st0. num st0 x < idx st0" by (rule D(8))
  show "low ?st v \<le> num ?st v" using D(9) nv lv by (simp add: min_le_iff_disj)
  show "\<exists>new. stack_of ?st = new @ v # stack_of st0 \<and> set new \<inter> visited st0 = {} \<and>
         (\<forall>y\<in>set new. (v, y) \<in> (succ_rel vs)\<^sup>* \<and> num ?st v < num ?st y) \<and>
         (\<forall>y\<in>set new. \<forall>z\<in>set (stack_of st0). z \<in> succs vs y \<longrightarrow> low ?st v \<le> num ?st z)"
  proof (intro exI [where x = "nw @ new"] conjI ballI impI)
    show "stack_of ?st = (nw @ new) @ v # stack_of st0" using nw(1) new(1) by simp
    show "set (nw @ new) \<inter> visited st0 = {}" using nw(2) new(2) D(4) by auto
  next
    fix y assume y: "y \<in> set (nw @ new)"
    show "(v, y) \<in> (succ_rel vs)\<^sup>*"
    proof (cases "y \<in> set nw")
      case True
      then have "(w, y) \<in> (succ_rel vs)\<^sup>*" using sh by (auto split: if_splits)
      then show ?thesis using vw by (rule converse_rtrancl_into_rtrancl [rotated])
    next
      case False
      then show ?thesis using y new(3) by auto
    qed
    show "num ?st v < num ?st y"
    proof (cases "y \<in> set nw")
      case True
      then show ?thesis using nwnum nv by simp
    next
      case False
      then have yn: "y \<in> set new" using y by auto
      then have "num st1 y = num st y" using N(1) newv by auto
      then show ?thesis using new(3) yn nv by simp
    qed
  next
    fix y z assume y: "y \<in> set (nw @ new)" and z: "z \<in> set (stack_of st0)" "z \<in> succs vs y"
    have nz: "num st1 z = num st z" using N(1) z(1) S0 by auto
    show "low ?st v \<le> num ?st z"
    proof (cases "y \<in> set nw")
      case True
      moreover have "z \<in> set (stack_of st)" using z(1) new(1) by simp
      ultimately have "low st1 w \<le> num st1 z" using sh z(2) by (auto split: if_splits)
      then show ?thesis by (simp add: min_le_iff_disj)
    next
      case False
      then have "y \<in> set new" using y by auto
      then have "low st v \<le> num st z" using new(4) z by blast
      then show ?thesis using lv nz by (simp add: min_le_iff_disj)
    qed
  qed
  show "\<exists>x\<in>insert v (set (stack_of st0)). num ?st x = low ?st v \<and> (v, x) \<in> (succ_rel vs)\<^sup>*"
  proof (cases "low st v \<le> ?m")
    case True
    then have l: "low ?st v = low st v" using lv by (simp add: min_def)
    from D(11) obtain x where x: "x \<in> insert v (set (stack_of st0))" "num st x = low st v"
      "(v, x) \<in> (succ_rel vs)\<^sup>*" by blast
    have "x \<in> visited st" using x(1) D(6) S0 by auto
    then have "num st1 x = num st x" using N(1) by simp
    then show ?thesis unfolding l using x by auto
  next
    case False
    then have l: "low ?st v = ?m" using lv by (simp add: min_def)
    have lt: "?m < low st v" using False by simp
    have wn: "w \<in> visited st1 - visited st" using Q(4) f by simp
    have "nw \<noteq> []"
    proof
      assume "nw = []"
      then have "?m = num st1 w" using sh by simp
      moreover have "idx st \<le> num st1 w" using Q(5) wn by simp
      ultimately show False using lt vi D(9) by simp
    qed
    then obtain x where x: "x \<in> set (stack_of st)" "num st1 x = ?m" "(w, x) \<in> (succ_rel vs)\<^sup>*"
      using sh by auto
    have xv: "x \<in> visited st" using x(1) tinv_stackset(3) [OF D(1)] by auto
    then have nx: "num st x = ?m" using N(1) x(2) by simp
    have "x \<notin> set new" using new(3) nx lt D(9) by force
    moreover have "x \<noteq> v" using nx lt D(9) by auto
    ultimately have "x \<in> set (stack_of st0)" using x(1) new(1) by auto
    moreover have "(v, x) \<in> (succ_rel vs)\<^sup>*"
      using x(3) vw by (rule converse_rtrancl_into_rtrancl [rotated])
    ultimately show ?thesis unfolding l using x(2) by auto
  qed
  show "\<forall>w\<in>insert w P. w \<in> visited ?st \<and> (w \<in> set (stack_of st0) \<longrightarrow> low ?st v \<le> num ?st w)"
  proof
    fix p assume p: "p \<in> insert w P"
    show "p \<in> visited ?st \<and> (p \<in> set (stack_of st0) \<longrightarrow> low ?st v \<le> num ?st p)"
    proof (cases "p = w")
      case True
      then show ?thesis unfolding vis using Q(4) f S0 by auto
    next
      case False
      then have pP: "p \<in> P" using p by simp
      then have pv: "p \<in> visited st" using D(12) by simp
      then have "num st1 p = num st p" using N(1) by simp
      then show ?thesis unfolding vis using D(12) pP pv Q(3) lv by (auto simp: min_le_iff_disj)
    qed
  qed
  show "G \<subseteq> set (stack_of st0)" by (rule D(13))
  show "\<forall>y\<in>set (stack_of st0). \<exists>g\<in>G. (y, g) \<in> (succ_rel vs)\<^sup>*" by (rule D(14))
  show "set (stack_of st0) \<subseteq> visited st0" by (rule D(15))
qed

subsection \<open>Leaving a vertex\<close>

lemma rtrancl_confined:
  assumes "(a, b) \<in> r\<^sup>*" and "a \<in> X" and "\<forall>a\<in>X. r `` {a} \<subseteq> X"
  shows "b \<in> X"
  using assms by (induction rule: rtrancl_induct) auto

text \<open>
  A set \<open>C\<close> of vertices all reachable from \<open>v\<close>, each reaching \<open>v\<close> or a vertex of
  \<open>G\<close>, whose edges stay in \<open>C\<close> or lead into a set \<open>D\<close> that no edge leaves, is the
  strongly connected component of \<open>v\<close>, provided \<open>G\<close> is outside of both.
\<close>

lemma scc_segment:
  assumes vC: "v \<in> C"
    and "from": "\<forall>y\<in>C. (v, y) \<in> r\<^sup>*"
    and to: "\<forall>y\<in>C. \<exists>g\<in>insert v G. (y, g) \<in> r\<^sup>*"
    and out: "\<forall>a\<in>C. r `` {a} \<subseteq> C \<union> D"
    and cl: "\<forall>a\<in>D. r `` {a} \<subseteq> D"
    and dis: "C \<inter> D = {}" "G \<inter> (C \<union> D) = {}"
  shows "C = scc_of r v"
proof -
  have cd: "\<forall>a\<in>C \<union> D. r `` {a} \<subseteq> C \<union> D" using out cl by blast
  show ?thesis
  proof (intro equalityI subsetI)
    fix y assume y: "y \<in> C"
    then obtain g where g: "g \<in> insert v G" "(y, g) \<in> r\<^sup>*" using to by blast
    have "g \<in> C \<union> D" using rtrancl_confined [OF g(2) _ cd] y by simp
    then have "g = v" using g(1) dis(2) by auto
    then show "y \<in> scc_of r v" using g(2) "from" y by (simp add: scc_of_def)
  next
    fix u assume "u \<in> scc_of r v"
    then have u: "(v, u) \<in> r\<^sup>*" "(u, v) \<in> r\<^sup>*" by (simp_all add: scc_of_def)
    have "u \<in> C \<union> D" using rtrancl_confined [OF u(1) _ cd] vC by simp
    moreover have "u \<notin> D"
    proof
      assume "u \<in> D"
      then have "v \<in> D" using rtrancl_confined [OF u(2) _ cl] by simp
      then show False using vC dis(1) by auto
    qed
    ultimately show "u \<in> C" by simp
  qed
qed

lemma leave_tpost:
  assumes L: "loop_inv vs G v st0 (succs vs v) st"
  shows "\<exists>st'. leave v st = Inr st' \<and> tpost vs G v st0 st'"
proof -
  note D = loop_invD [OF L]
  note F = loop_inv_facts [OF L]
  note I = tinvD [OF D(1)]
  let ?S0 = "stack_of st0" and ?r = "succ_rel vs"
  from D(10) obtain new where new: "stack_of st = new @ v # ?S0"
    "set new \<inter> visited st0 = {}"
    "\<forall>y\<in>set new. (v, y) \<in> ?r\<^sup>* \<and> num st v < num st y"
    "\<forall>y\<in>set new. \<forall>z\<in>set ?S0. z \<in> succs vs y \<longrightarrow> low st v \<le> num st z"
    by blast
  have dist: "distinct (new @ v # ?S0)" using F(5) new(1) by simp
  have vnew: "v \<notin> set new" using dist by auto
  have succv: "\<forall>z\<in>succs vs v. z \<in> visited st \<and> (z \<in> set ?S0 \<longrightarrow> low st v \<le> num st z)"
    using D(12) by simp
  have black: "\<forall>a\<in>visited st - G. succs vs a \<subseteq> visited st"
  proof
    fix a assume a: "a \<in> visited st - G"
    show "succs vs a \<subseteq> visited st"
    proof (cases "a = v")
      case True
      then show ?thesis using succv by auto
    next
      case False
      then show ?thesis using I(11) a by auto
    qed
  qed
  show ?thesis
  proof (cases "num st v = low st v")
    case True
    let ?C = "set new \<union> {v}"
    let ?s' = "(tstack st)\<lparr>stack := ?S0, stackset := stackset (tstack st) - set new - {v}\<rparr>"
    let ?st' = "st\<lparr>tstack := ?s', scc_list := scc_list st @ [new @ [v]]\<rparr>"
    have "stack (tstack st) = new @ v # ?S0" using new(1) by (simp add: stack_of_def)
    then have "pop_scc v (tstack st) [] = Inr ([] @ new @ [v], ?s')"
      using vnew by (rule pop_scc_segment)
    then have lv: "leave v st = Inr ?st'" using F(6) True by (simp add: leave_def)
    have r: "visited ?st' = visited st" "idx ?st' = idx st" "node_st ?st' = node_st st"
      "stack_of ?st' = ?S0" "closed ?st' = closed st \<union> ?C"
      "\<And>x. num ?st' x = num st x" "\<And>x. low ?st' x = low st x"
      by (auto simp: visited_def stack_of_def closed_def num_def low_def)
    have CS0: "?C \<inter> set ?S0 = {}" using dist by auto
    have Ccl: "?C \<inter> closed st = {}" using I(3) new(1) by auto
    have out: "\<forall>a\<in>?C. succs vs a \<subseteq> ?C \<union> closed st"
    proof (intro ballI subsetI)
      fix a z assume a: "a \<in> ?C" and z: "z \<in> succs vs a"
      have aG: "a = v \<or> a \<in> visited st - insert v G"
        using a D(13) CS0 tinv_stackset(3) [OF D(1)] new(1) by auto
      have zv: "z \<in> visited st"
        using aG
      proof
        assume "a = v" then show ?thesis using succv z by simp
      next
        assume "a \<in> visited st - insert v G" then show ?thesis using I(11) z by blast
      qed
      have "z \<notin> set ?S0"
      proof
        assume zs: "z \<in> set ?S0"
        have "low st v \<le> num st z"
        proof (cases "a = v")
          case True then show ?thesis using succv z zs by simp
        next
          case False then show ?thesis using new(4) a z zs by auto
        qed
        then show False using F(1) zs True by auto
      qed
      then show "z \<in> ?C \<union> closed st" using zv I(2) new(1) by auto
    qed
    have im: "\<And>a. ?r `` {a} = succs vs a" by auto
    have scc: "?C = scc_of ?r v"
    proof (rule scc_segment [where G = G and D = "closed st"])
      show "v \<in> ?C" by simp
      show "\<forall>y\<in>?C. (v, y) \<in> ?r\<^sup>*" using new(3) by auto
      show "\<forall>y\<in>?C. \<exists>g\<in>insert v G. (y, g) \<in> ?r\<^sup>*" using I(10) new(1) by auto
      show "\<forall>a\<in>?C. ?r `` {a} \<subseteq> ?C \<union> closed st" unfolding im by (rule out)
      show "\<forall>a\<in>closed st. ?r `` {a} \<subseteq> closed st" unfolding im by (rule I(6))
      show "?C \<inter> closed st = {}" by (rule Ccl)
      show "G \<inter> (?C \<union> closed st) = {}" using D(13) CS0 I(3) new(1) by auto
    qed
    have inv: "tinv vs G ?st'"
    proof (rule tinvI)
      have "stackset (tstack st) = set (new @ v # ?S0)" using F(4) new(1) by simp
      then have "stackset ?s' = set ?S0" using dist by auto
      then show "stack_inv (tstack ?st')" using dist by (simp add: stack_inv_def)
      show "visited ?st' = set (stack_of ?st') \<union> closed ?st'" unfolding r using I(2) new(1) by auto
      show "set (stack_of ?st') \<inter> closed ?st' = {}" unfolding r using I(3) new(1) CS0 by auto
      show "visited ?st' \<subseteq> fst ` set vs" unfolding r by (rule I(4))
      show "\<forall>x\<in>visited ?st'. num ?st' x < idx ?st'" unfolding r by (rule I(5))
      show "\<forall>a\<in>closed ?st'. succs vs a \<subseteq> closed ?st'" unfolding r using I(6) out by blast
      show "\<forall>c\<in>set (scc_list ?st'). \<exists>u. set c = scc_of ?r u" using I(7) scc by auto
      show "distinct (concat (scc_list ?st'))"
        using I(8) dist Ccl by (auto simp: closed_def)
      show "G \<subseteq> set (stack_of ?st')" unfolding r by (rule D(13))
      show "\<forall>y\<in>set (stack_of ?st'). \<exists>g\<in>G. (y, g) \<in> ?r\<^sup>*" unfolding r by (rule D(14))
      show "\<forall>a\<in>visited ?st' - G. succs vs a \<subseteq> visited ?st'" unfolding r by (rule black)
    qed
    have "tpost vs G v st0 ?st'"
    proof (rule tpostI [OF inv])
      show "\<forall>x\<in>visited st0. node_st ?st' x = node_st st0 x" unfolding r by (rule D(3))
      show "visited st0 \<subseteq> visited ?st'" unfolding r by (rule D(4))
      show "v \<in> visited ?st'" unfolding r by (rule D(6))
      show "\<forall>x\<in>visited ?st' - visited st0. idx st0 \<le> num ?st' x" unfolding r by (rule D(7))
      show "\<exists>new. stack_of ?st' = new @ ?S0 \<and> set new \<inter> visited st0 = {} \<and>
         (if new = [] then low ?st' v = num ?st' v
          else v \<in> set new \<and> (\<forall>y\<in>set new. (v, y) \<in> ?r\<^sup>*) \<and>
               (\<exists>x\<in>set ?S0. num ?st' x = low ?st' v \<and> (v, x) \<in> ?r\<^sup>*) \<and>
               (\<forall>y\<in>set new. \<forall>z\<in>set ?S0. z \<in> succs vs y \<longrightarrow> low ?st' v \<le> num ?st' z))"
        unfolding r using True by (intro exI [where x = "[]"]) simp
    qed
    then show ?thesis using lv by blast
  next
    case False
    have lv: "leave v st = Inr st" using F(6) False by (simp add: leave_def)
    from D(11) obtain x where x: "x \<in> insert v (set ?S0)" "num st x = low st v" "(v, x) \<in> ?r\<^sup>*"
      by blast
    have xS: "x \<in> set ?S0" using x(1,2) False by auto
    then obtain g0 where g0: "g0 \<in> G" "(x, g0) \<in> ?r\<^sup>*" using D(14) by blast
    have vg: "(v, g0) \<in> ?r\<^sup>*" using x(3) g0(2) by simp
    have inv: "tinv vs G st"
    proof (rule tinvI)
      show "G \<subseteq> set (stack_of st)" using D(13) new(1) by auto
      show "\<forall>y\<in>set (stack_of st). \<exists>g\<in>G. (y, g) \<in> ?r\<^sup>*"
      proof
        fix y assume "y \<in> set (stack_of st)"
        then obtain g where g: "g \<in> insert v G" "(y, g) \<in> ?r\<^sup>*" using I(10) by blast
        show "\<exists>g\<in>G. (y, g) \<in> ?r\<^sup>*"
        proof (cases "g = v")
          case True
          then have "(y, g0) \<in> ?r\<^sup>*" using g(2) vg by simp
          then show ?thesis using g0(1) by blast
        next
          case False
          then show ?thesis using g by blast
        qed
      qed
      show "\<forall>a\<in>visited st - G. succs vs a \<subseteq> visited st" by (rule black)
    qed (rule I)+
    have "tpost vs G v st0 st"
    proof (rule tpostI [OF inv D(3) D(4) D(6) D(7)])
      show "\<exists>new. stack_of st = new @ ?S0 \<and> set new \<inter> visited st0 = {} \<and>
         (if new = [] then low st v = num st v
          else v \<in> set new \<and> (\<forall>y\<in>set new. (v, y) \<in> ?r\<^sup>*) \<and>
               (\<exists>x\<in>set ?S0. num st x = low st v \<and> (v, x) \<in> ?r\<^sup>*) \<and>
               (\<forall>y\<in>set new. \<forall>z\<in>set ?S0. z \<in> succs vs y \<longrightarrow> low st v \<le> num st z))"
      proof (intro exI [where x = "new @ [v]"] conjI)
        show "stack_of st = (new @ [v]) @ ?S0" using new(1) by simp
        show "set (new @ [v]) \<inter> visited st0 = {}" using new(2) D(5) by auto
        have a: "\<forall>y\<in>set (new @ [v]). (v, y) \<in> ?r\<^sup>*" using new(3) by auto
        have b: "\<exists>x\<in>set ?S0. num st x = low st v \<and> (v, x) \<in> ?r\<^sup>*" using xS x by blast
        have c: "\<forall>y\<in>set (new @ [v]). \<forall>z\<in>set ?S0. z \<in> succs vs y \<longrightarrow> low st v \<le> num st z"
          using new(4) succv by auto
        show "if new @ [v] = [] then low st v = num st v
          else v \<in> set (new @ [v]) \<and> (\<forall>y\<in>set (new @ [v]). (v, y) \<in> ?r\<^sup>*) \<and>
               (\<exists>x\<in>set ?S0. num st x = low st v \<and> (v, x) \<in> ?r\<^sup>*) \<and>
               (\<forall>y\<in>set (new @ [v]). \<forall>z\<in>set ?S0. z \<in> succs vs y \<longrightarrow> low st v \<le> num st z)"
          using a b c by simp
      qed
    qed
    then show ?thesis using lv by blast
  qed
qed

subsection \<open>The walk\<close>

lemma card_unvisited_mono:
  assumes "visited st \<subseteq> visited st'"
  shows "card (fst ` set vs - visited st') \<le> card (fst ` set vs - visited st)"
  by (rule card_mono) (use assms in auto)

lemma wf_vertices_succs:
  assumes "wf_vertices vs"
  shows "succs vs a \<subseteq> fst ` set vs" and "finite (succs vs a)"
  using assms unfolding wf_vertices_def succs_def by (auto split: option.splits)

text \<open>
  The loop over the successors, given that the calls of \<^verbatim>\<open>strongconnect\<close> at the same
  depth behave: it keeps the loop invariant, or the recursion limit was too low for the
  vertices not yet visited.
\<close>

lemma visit_correct:
  assumes SC: "\<And>w st G. tinv vs G st \<Longrightarrow> w \<in> fst ` set vs \<Longrightarrow> w \<notin> visited st \<Longrightarrow>
        (case strongconnect d iter vs w st of
           Inr st' \<Rightarrow> tpost vs G w st st'
         | Inl e \<Rightarrow> e = RecursionError \<and> d < card (fst ` set vs - visited st))"
    and keys: "\<And>a. succs vs a \<subseteq> fst ` set vs"
  shows "loop_inv vs G v st0 P st \<Longrightarrow> set ws \<subseteq> succs vs v \<Longrightarrow>
      (case visit d iter vs v ws st of
         Inr st' \<Rightarrow> loop_inv vs G v st0 (P \<union> set ws) st'
       | Inl e \<Rightarrow> e = RecursionError \<and> d < card (fst ` set vs - visited st))"
proof (induction ws arbitrary: P st)
  case Nil
  then show ?case by simp
next
  case (Cons w ws)
  note L = Cons.prems(1)
  note D = loop_invD [OF L]
  have e: "w \<in> succs vs v" and ws: "set ws \<subseteq> succs vs v" using Cons.prems(2) by auto
  have P: "P \<union> set (w # ws) = insert w P \<union> set ws" by auto
  show ?case
  proof (cases "w \<in> visited st")
    case False
    have wk: "w \<in> fst ` set vs" using e keys by auto
    note sc = SC [OF D(1) wk False]
    show ?thesis
    proof (cases "strongconnect d iter vs w st")
      case (Inl err)
      then show ?thesis using sc by (subst visit_new [OF False]) simp
    next
      case (Inr st1)
      then have T: "tpost vs (insert v G) w st st1" using sc by simp
      note Q = tpostD [OF T]
      let ?st2 = "lower v (low st1 w) st1"
      have v1: "v \<in> visited st1" using D(6) Q(3) by auto
      have step: "visit d iter vs v (w # ws) st = visit d iter vs v ws ?st2"
        using Inr v1 Q(4) by (subst visit_new [OF False]) simp
      have L2: "loop_inv vs G v st0 (insert w P) ?st2"
        using L e False T by (rule child_loop_inv)
      have "visited st \<subseteq> visited ?st2" using Q(3) by auto
      then have c: "card (fst ` set vs - visited ?st2) \<le> card (fst ` set vs - visited st)"
        by (rule card_unvisited_mono)
      show ?thesis unfolding step P using Cons.IH [OF L2 ws] c
        by (auto split: sum.splits)
    qed
  next
    case True
    show ?thesis
    proof (cases "contains_stack (tstack st) w")
      case on: True
      let ?st2 = "lower v (num st w) st"
      have step: "visit d iter vs v (w # ws) st = visit d iter vs v ws ?st2"
        using True on D(6) by (rule visit_on_stack)
      have L2: "loop_inv vs G v st0 (insert w P) ?st2"
        using L e True on by (rule on_stack_loop_inv)
      have vis: "visited ?st2 = visited st" using D(6) by (simp add: insert_absorb)
      show ?thesis unfolding step P using Cons.IH [OF L2 ws] unfolding vis .
    next
      case off: False
      have step: "visit d iter vs v (w # ws) st = visit d iter vs v ws st"
        using True off by (rule visit_off_stack)
      have L2: "loop_inv vs G v st0 (insert w P) st"
        using L True off by (rule off_stack_loop_inv)
      show ?thesis unfolding step P using Cons.IH [OF L2 ws] by simp
    qed
  qed
qed

text \<open>
  A call of \<^verbatim>\<open>strongconnect\<close> on an unvisited vertex of the graph either returns and
  establishes \<open>tpost\<close>, or raises \<^verbatim>\<open>RecursionError\<close>, and that only when the depth
  left is smaller than the number of unvisited vertices.
\<close>

lemma strongconnect_correct:
  assumes wf: "wf_vertices vs" and ord: "set_order iter"
  shows "tinv vs G st \<Longrightarrow> v \<in> fst ` set vs \<Longrightarrow> v \<notin> visited st \<Longrightarrow>
        (case strongconnect d iter vs v st of
           Inr st' \<Rightarrow> tpost vs G v st st'
         | Inl e \<Rightarrow> e = RecursionError \<and> d < card (fst ` set vs - visited st))"
proof (induction d arbitrary: v st G)
  case 0
  have "v \<in> fst ` set vs - visited st" using 0 by simp
  then have "0 < card (fst ` set vs - visited st)"
    by (metis card_gt_0_iff empty_iff finite_Diff finite_imageI finite_set)
  then show ?case by simp
next
  case (Suc d)
  note inv = Suc.prems(1) and key = Suc.prems(2) and fresh = Suc.prems(3)
  obtain vx where vx: "map_of vs v = Some vx"
    using key by (metis map_of_eq_None_iff not_Some_eq)
  have sv: "succs vs v = successors vx" using vx by (simp add: succs_def)
  have "finite (successors vx)" using wf_vertices_succs(2) [OF wf, of v] sv by simp
  then have ws: "set (iter (successors vx)) = succs vs v"
    using ord sv by (simp add: set_order_def)
  have ns: "v \<notin> stackset (tstack st)" using tinv_stackset [OF inv] fresh by auto
  note eq = strongconnect_Suc [OF ns vx, of d iter]
  have L0: "loop_inv vs G v st {} (enter v st)" using inv key fresh by (rule enter_loop_inv)
  have keys: "\<And>a. succs vs a \<subseteq> fst ` set vs" using wf by (rule wf_vertices_succs)
  have V: "case visit d iter vs v (iter (successors vx)) (enter v st) of
         Inr st' \<Rightarrow> loop_inv vs G v st ({} \<union> set (iter (successors vx))) st'
       | Inl e \<Rightarrow> e = RecursionError \<and> d < card (fst ` set vs - visited (enter v st))"
    by (rule visit_correct [OF Suc.IH keys L0]) (simp_all add: ws)
  show ?case
  proof (cases "visit d iter vs v (iter (successors vx)) (enter v st)")
    case (Inl err)
    then have e: "err = RecursionError" "d < card (fst ` set vs - insert v (visited st))"
      using V by simp_all
    have "fst ` set vs - insert v (visited st) = (fst ` set vs - visited st) - {v}" by auto
    moreover have "v \<in> fst ` set vs - visited st" using key fresh by simp
    ultimately have "card (fst ` set vs - insert v (visited st))
        < card (fst ` set vs - visited st)"
      by (metis card_Diff1_less finite_Diff finite_imageI finite_set)
    then show ?thesis unfolding eq using Inl e by simp
  next
    case (Inr st3)
    then have "loop_inv vs G v st (succs vs v) st3" using V ws by simp
    from leave_tpost [OF this] obtain st' where "leave v st3 = Inr st'" "tpost vs G v st st'"
      by blast
    then show ?thesis unfolding eq using Inr by simp
  qed
qed

subsection \<open>The roots and the result\<close>

lemma roots_correct:
  assumes wf: "wf_vertices vs" and ord: "set_order iter"
  shows "tinv vs {} st \<Longrightarrow> set es \<subseteq> fst ` set vs \<Longrightarrow>
      (case roots d iter vs es st of
         Inr st' \<Rightarrow> tinv vs {} st' \<and> visited st \<union> set es \<subseteq> visited st'
       | Inl e \<Rightarrow> e = RecursionError \<and> d < card (fst ` set vs - visited st))"
proof (induction es arbitrary: st)
  case Nil
  then show ?case by simp
next
  case (Cons e es)
  have ek: "e \<in> fst ` set vs" and es: "set es \<subseteq> fst ` set vs" using Cons.prems(2) by auto
  show ?case
  proof (cases "e \<in> visited st")
    case True
    then have "roots d iter vs (e # es) st = roots d iter vs es st" by (simp add: visited_def)
    then show ?thesis using Cons.IH [OF Cons.prems(1) es] True by (auto split: sum.splits)
  next
    case False
    note sc = strongconnect_correct [OF wf ord Cons.prems(1) ek False, of d]
    show ?thesis
    proof (cases "strongconnect d iter vs e st")
      case (Inl err)
      then show ?thesis using sc False by (simp add: visited_def)
    next
      case (Inr st1)
      then have T: "tpost vs {} e st st1" using sc by simp
      note Q = tpostD [OF T]
      have step: "roots d iter vs (e # es) st = roots d iter vs es st1"
        using Inr False by (simp add: visited_def)
      have c: "card (fst ` set vs - visited st1) \<le> card (fst ` set vs - visited st)"
        using Q(3) by (rule card_unvisited_mono)
      show ?thesis unfolding step using Cons.IH [OF Q(1) es] Q(3,4) c
        by (auto split: sum.splits)
    qed
  qed
qed

lemma scc_of_self: "v \<in> scc_of r v"
  by (simp add: scc_of_def)

lemma scc_of_eq: "v \<in> scc_of r u \<Longrightarrow> scc_of r v = scc_of r u"
  by (auto simp: scc_of_def intro: rtrancl_trans)

lemma edges_succ_rel: "edges g = succ_rel (vertices g)"
  by (simp add: edges_def succ_rel_def)

lemma wf_graph_len: "wf_graph g \<Longrightarrow> card (fst ` set (vertices g)) = len_graph g"
  unfolding wf_graph_def wf_vertices_def len_graph_def
  by (metis distinct_card length_map set_map)

text \<open>
  \<^verbatim>\<open>tarjans\<close> returns the strongly connected components of the graph, each once and
  each vertex once, or raises \<^verbatim>\<open>RecursionError\<close>, and that only when the depth allowed
  is smaller than the number of vertices.
\<close>

lemma tarjans_correct:
  assumes wf: "wf_graph g" and ord: "set_order iter"
    and perm: "set (shuffle (items g)) = set (items g)"
  shows "case tarjans d iter shuffle use_rng g of
           Inr l \<Rightarrow> set ` set l = sccs g \<and> distinct (concat l) \<and> set (concat l) = set (items g)
         | Inl e \<Rightarrow> e = RecursionError \<and> d < len_graph g"
proof -
  let ?vs = "vertices g"
  let ?st0 = "\<lparr>node_st = Map.empty, idx = 0, tstack = \<lparr>stack = [], stackset = {}\<rparr>,
      scc_list = []\<rparr> :: 'a tstate"
  let ?es = "if use_rng then shuffle (map fst ?vs) else map fst ?vs"
  have wv: "wf_vertices ?vs" using wf by (simp add: wf_graph_def)
  have init: "UniqueStack_init ([] :: 'a list) = Inr \<lparr>stack = [], stackset = {}\<rparr>"
    by (simp add: UniqueStack_init_def)
  have eq: "tarjans d iter shuffle use_rng g =
      (case roots d iter ?vs ?es ?st0 of Inl err \<Rightarrow> Inl err | Inr st \<Rightarrow> Inr (scc_list st))"
    by (simp add: tarjans_def init Let_def)
  have v0: "visited ?st0 = {}" by (simp add: visited_def)
  have inv0: "tinv vs {} ?st0" for vs :: "('a \<times> ('a, 'b) DAGraphVertex) list"
    by (simp add: tinv_def stack_inv_def visited_def stack_of_def closed_def)
  have es: "set ?es = fst ` set ?vs" using perm by (simp add: items_def)
  then have sub: "set ?es \<subseteq> fst ` set ?vs" by simp
  note R = roots_correct [OF wv ord inv0 sub, of d]
  show ?thesis
  proof (cases "roots d iter ?vs ?es ?st0")
    case (Inl err)
    then have "err = RecursionError" "d < card (fst ` set ?vs)" using R v0 by simp_all
    then show ?thesis unfolding eq using Inl wf_graph_len [OF wf] by simp
  next
    case (Inr st)
    then have inv: "tinv ?vs {} st" and all: "set ?es \<subseteq> visited st" using R by simp_all
    note I = tinvD [OF inv]
    have emp: "stack_of st = []" using I(10) by (cases "stack_of st") auto
    have vis: "visited st = fst ` set ?vs" using all es I(4) by auto
    have cl: "closed st = fst ` set ?vs" using I(2) emp vis by simp
    have "set ` set (scc_list st) = scc_of (succ_rel ?vs) ` fst ` set ?vs"
    proof (intro equalityI subsetI)
      fix C assume "C \<in> set ` set (scc_list st)"
      then obtain c where c: "c \<in> set (scc_list st)" "C = set c" by auto
      then obtain u where u: "set c = scc_of (succ_rel ?vs) u" using I(7) by blast
      have "u \<in> set c" unfolding u by (rule scc_of_self)
      then have "u \<in> closed st" using c(1) by (auto simp: closed_def)
      then show "C \<in> scc_of (succ_rel ?vs) ` fst ` set ?vs" using c(2) u cl by auto
    next
      fix C assume "C \<in> scc_of (succ_rel ?vs) ` fst ` set ?vs"
      then obtain v where v: "v \<in> fst ` set ?vs" "C = scc_of (succ_rel ?vs) v" by auto
      then have "v \<in> closed st" using cl by simp
      then obtain c where c: "c \<in> set (scc_list st)" "v \<in> set c" by (auto simp: closed_def)
      then obtain u where u: "set c = scc_of (succ_rel ?vs) u" using I(7) by blast
      have "scc_of (succ_rel ?vs) v = scc_of (succ_rel ?vs) u"
        using c(2) unfolding u by (rule scc_of_eq)
      then show "C \<in> set ` set (scc_list st)" using v(2) u c(1) by auto
    qed
    then have "set ` set (scc_list st) = sccs g"
      by (simp add: sccs_def edges_succ_rel items_def)
    moreover have "set (concat (scc_list st)) = set (items g)"
      using cl by (simp add: closed_def items_def)
    ultimately show ?thesis unfolding eq using Inr I(8) by simp
  qed
qed

subsection \<open>Counting the components\<close>

lemma distinct_map_set:
  assumes "distinct (concat l)" and "\<forall>c\<in>set l. c \<noteq> []"
  shows "distinct (map set l)"
  using assms
proof (induction l)
  case Nil
  then show ?case by simp
next
  case (Cons c l)
  have "set c \<notin> set ` set l"
  proof
    assume "set c \<in> set ` set l"
    then obtain c' where c': "c' \<in> set l" "set c = set c'" by auto
    obtain x where x: "x \<in> set c" using Cons.prems(2) by (cases c) auto
    then have "x \<in> set (concat l)" using c' by auto
    then show False using Cons.prems(1) x by auto
  qed
  then show ?case using Cons by simp
qed

lemma length_concat_nonempty:
  assumes "\<forall>c\<in>set l. c \<noteq> []"
  shows "length l \<le> length (concat l) \<and>
         (length l < length (concat l) \<longleftrightarrow> (\<exists>c\<in>set l. 1 < length c))"
  using assms
proof (induction l)
  case Nil
  show ?case by simp
next
  case (Cons c l)
  have c: "1 \<le> length c" using Cons.prems by (cases c) auto
  have a: "length l \<le> length (concat l)"
    and b: "length l < length (concat l) \<longleftrightarrow> (\<exists>c\<in>set l. 1 < length c)"
    using Cons by simp_all
  show ?case using a b c by auto
qed


lemma tarjans_result:
  assumes wf: "wf_graph g" and ord: "set_order iter"
    and perm: "mset (shuffle (items g)) = mset (items g)"
    and res: "tarjans d iter shuffle use_rng g = Inr l"
  shows "set ` set l = sccs g" and "length l = card (sccs g)"
    and "length l \<le> len_graph g"
    and "length l < len_graph g \<longleftrightarrow> (\<exists>c\<in>set l. 1 < length c)"
proof -
  have p: "set (shuffle (items g)) = set (items g)" using perm by (rule mset_eq_setD)
  have "set ` set l = sccs g \<and> distinct (concat l) \<and> set (concat l) = set (items g)"
    using tarjans_correct [where shuffle = shuffle and d = d and use_rng = use_rng, OF wf ord p]
    unfolding res sum.case .
  then have T: "set ` set l = sccs g" "distinct (concat l)" "set (concat l) = set (items g)"
    by blast+
  show "set ` set l = sccs g" by (rule T(1))
  have ne: "\<forall>c\<in>set l. c \<noteq> []"
  proof
    fix c assume "c \<in> set l"
    then have "set c \<in> sccs g" using T(1) by auto
    then obtain v where "set c = scc_of (edges g) v" by (auto simp: sccs_def)
    then have "v \<in> set c" using scc_of_self by metis
    then show "c \<noteq> []" by auto
  qed
  have "distinct (map set l)" using T(2) ne by (rule distinct_map_set)
  then have "card (set (map set l)) = length l" using distinct_card by fastforce
  then show "length l = card (sccs g)" using T(1) by simp
  have "card (set (items g)) = len_graph g"
    using wf_graph_len [OF wf] by (simp add: items_def)
  then have len: "length (concat l) = len_graph g"
    using T(2,3) distinct_card by fastforce
  show "length l \<le> len_graph g"
    and "length l < len_graph g \<longleftrightarrow> (\<exists>c\<in>set l. 1 < length c)"
    using length_concat_nonempty [OF ne] unfolding len by simp_all
qed

lemma tarjans_returns:
  assumes wf: "wf_graph g" and ord: "set_order iter"
    and perm: "mset (shuffle (items g)) = mset (items g)"
    and d: "len_graph g \<le> d"
  shows "\<exists>l. tarjans d iter shuffle use_rng g = Inr l"
proof -
  have p: "set (shuffle (items g)) = set (items g)" using perm by (rule mset_eq_setD)
  show ?thesis
    using tarjans_correct [where shuffle = shuffle and d = d and use_rng = use_rng, OF wf ord p] d
    by (cases "tarjans d iter shuffle use_rng g") auto
qed

lemma wf_graph_direct_cyclic: "wf_graph g \<Longrightarrow> direct_cyclic g \<longleftrightarrow> (\<exists>k. (k, k) \<in> edges g)"
  by (simp add: wf_graph_def edges_def)

subsection \<open>A graph without edges\<close>

lemma strongconnect_no_successor:
  assumes "succs vs v = {}" and "iter {} = []"
  shows "strongconnect (Suc d) iter vs v st \<noteq> Inl RecursionError"
proof (cases "map_of vs v")
  case None
  then show ?thesis by (simp add: Let_def push_def split: prod.splits sum.splits)
next
  case (Some vx)
  then have "iter (successors vx) = []" using assms by (simp add: succs_def)
  then show ?thesis using Some
    by (auto simp: Let_def push_def split: prod.splits sum.splits option.splits if_splits
        dest: pop_scc_error)
qed

lemma roots_no_successor:
  assumes "\<forall>v. succs vs v = {}" and "iter {} = []"
  shows "roots (Suc d) iter vs es st \<noteq> Inl RecursionError"
proof (induction es arbitrary: st)
  case Nil
  show ?case by simp
next
  case (Cons e es)
  show ?case
    using strongconnect_no_successor [of vs e iter d st] assms Cons
    by (auto split: sum.splits)
qed

lemma tarjans_no_edges:
  assumes wf: "wf_graph g" and ord: "set_order iter"
    and perm: "mset (shuffle (items g)) = mset (items g)"
    and e: "edges g = {}" and d: "0 < d"
  shows "\<exists>l. tarjans d iter shuffle use_rng g = Inr l \<and> length l = len_graph g"
proof -
  have p: "set (shuffle (items g)) = set (items g)" using perm by (rule mset_eq_setD)
  obtain d' where d': "d = Suc d'" using d by (cases d) auto
  have s: "\<forall>v. succs (vertices g) v = {}" using e by (auto simp: edges_def)
  have i: "iter {} = []" using ord unfolding set_order_def by (metis finite.emptyI set_empty)
  have "tarjans d iter shuffle use_rng g \<noteq> Inl RecursionError"
    unfolding d' using roots_no_successor [where iter = iter and vs = "vertices g", OF s i]
    by (auto simp: tarjans_def Let_def UniqueStack_init_def split: sum.splits)
  then obtain l where l: "tarjans d iter shuffle use_rng g = Inr l"
    using tarjans_correct [where shuffle = shuffle and d = d and use_rng = use_rng, OF wf ord p]
    by (cases "tarjans d iter shuffle use_rng g") auto
  have "\<not> (\<exists>c\<in>set l. 1 < length c)"
  proof
    assume "\<exists>c\<in>set l. 1 < length c"
    then obtain c where c: "c \<in> set l" "1 < length c" by blast
    then have "set c \<in> sccs g" using tarjans_result(1) [OF wf ord perm l] by auto
    then obtain v where "set c = scc_of {} v" using e by (auto simp: sccs_def)
    then have sc: "set c = {v}" by (auto simp: scc_of_def)
    have "distinct (concat l)"
      using tarjans_correct [where shuffle = shuffle and d = d and use_rng = use_rng, OF wf ord p]
      unfolding l sum.case by blast
    then have "distinct c" using c(1) by (auto simp: distinct_concat_iff)
    then have "length c = card (set c)" by (simp add: distinct_card)
    then show False using sc c(2) by simp
  qed
  then have "length l = len_graph g"
    using tarjans_result(3,4) [OF wf ord perm l] by auto
  then show ?thesis using l by blast
qed

section \<open>is_cyclic\<close>

lemma is_cyclic_unfold:
  "is_cyclic d iter shuffle use_rng g = Inr b \<longleftrightarrow>
     (direct_cyclic g \<and> b) \<or>
     (\<not> direct_cyclic g \<and>
        (\<exists>l. tarjans d iter shuffle use_rng g = Inr l \<and> b = (length l \<noteq> len_graph g)))"
  by (auto simp: is_cyclic_def split: sum.splits)

text \<open>
  C1. For every graph built through the interface, every iteration order of the sets
  and every permutation the shuffle may produce: \<^verbatim>\<open>is_cyclic\<close> returns true exactly
  when the graph has a self-loop edge or \<^verbatim>\<open>tarjans\<close> returns fewer components than the
  graph has vertices; whenever \<^verbatim>\<open>tarjans\<close> returns, its list is the partition of the
  vertices into strongly connected components, and it is shorter than the number of
  vertices exactly when some component has more than one member; \<^verbatim>\<open>is_cyclic\<close> returns true at once when the flag
  is set, and false on a graph without edges (one activation of \<^verbatim>\<open>strongconnect\<close>
  is all the walk needs there); and it returns whenever the recursion limit allows as
  many nested activations as the graph has vertices.
\<close>

theorem C1_is_cyclic:
  assumes "wf_graph g" and "set_order iter" and "mset (shuffle (items g)) = mset (items g)"
  shows "(is_cyclic d iter shuffle use_rng g = Inr True \<longleftrightarrow>
            (\<exists>k. (k, k) \<in> edges g) \<or>
            (\<exists>l. tarjans d iter shuffle use_rng g = Inr l \<and> length l < len_graph g)) \<and>
         (\<forall>l. tarjans d iter shuffle use_rng g = Inr l \<longrightarrow>
            set ` set l = sccs g \<and>
            (length l < len_graph g \<longleftrightarrow> (\<exists>scc\<in>set l. 1 < length scc))) \<and>
         (direct_cyclic g \<longrightarrow> is_cyclic d iter shuffle use_rng g = Inr True) \<and>
         (edges g = {} \<and> 0 < d \<longrightarrow> is_cyclic d iter shuffle use_rng g = Inr False) \<and>
         (len_graph g \<le> d \<longrightarrow> (\<exists>b. is_cyclic d iter shuffle use_rng g = Inr b))"
proof (intro conjI allI impI)
  note dc = wf_graph_direct_cyclic [OF assms(1)]
  note R = tarjans_result [where shuffle = shuffle, OF assms]
  show "is_cyclic d iter shuffle use_rng g = Inr True \<longleftrightarrow>
            (\<exists>k. (k, k) \<in> edges g) \<or>
            (\<exists>l. tarjans d iter shuffle use_rng g = Inr l \<and> length l < len_graph g)"
  proof (cases "direct_cyclic g")
    case True
    then show ?thesis using dc by (simp add: is_cyclic_def)
  next
    case False
    have "\<And>l. tarjans d iter shuffle use_rng g = Inr l \<Longrightarrow>
        (length l \<noteq> len_graph g) = (length l < len_graph g)"
      using R(3) by fastforce
    then show ?thesis using False dc unfolding is_cyclic_unfold by auto
  qed
  show "set ` set l = sccs g"
    if "tarjans d iter shuffle use_rng g = Inr l" for l
    using R(1) [OF that] .
  show "length l < len_graph g \<longleftrightarrow> (\<exists>scc\<in>set l. 1 < length scc)"
    if "tarjans d iter shuffle use_rng g = Inr l" for l
    using R(4) [OF that] .
  show "is_cyclic d iter shuffle use_rng g = Inr True" if "direct_cyclic g"
    using that by (simp add: is_cyclic_def)
  show "is_cyclic d iter shuffle use_rng g = Inr False" if e: "edges g = {} \<and> 0 < d"
  proof -
    have n: "\<not> direct_cyclic g" using e dc by simp
    obtain l where "tarjans d iter shuffle use_rng g = Inr l" "length l = len_graph g"
      using tarjans_no_edges [where shuffle = shuffle, OF assms] e by blast
    then show ?thesis using n unfolding is_cyclic_unfold by simp
  qed
  show "\<exists>b. is_cyclic d iter shuffle use_rng g = Inr b" if "len_graph g \<le> d"
    using tarjans_returns [where shuffle = shuffle and use_rng = use_rng, OF assms that] unfolding is_cyclic_unfold by auto
qed


lemma wf_graph12: "wf_graph graph12"
  using reachable_graph12 by (rule reachable_wf)

lemma wf_graph_chain3: "wf_graph graph_chain3"
  unfolding graph_chain3_def
  by (intro wf_graph_add_edge wf_graph_add_vertex wf_graph_init)

lemma mset_rev_items: "mset (rev (items g)) = mset (items g)"
  by simp

theorem C1_is_cyclic_witness:
  "wf_graph graph_cycle2 \<and> set_order (sorted_list_of_set :: nat set \<Rightarrow> nat list) \<and>
   mset (rev (items graph_cycle2)) = mset (items graph_cycle2) \<and>
   tarjans 2 sorted_list_of_set rev True graph_cycle2 = Inr [[1, 2]] \<and>
   length [[1, 2 :: nat]] < len_graph graph_cycle2 \<and>
   is_cyclic 2 sorted_list_of_set rev True graph_cycle2 = Inr True \<and>
   direct_cyclic graph_loop \<and>
   is_cyclic 0 sorted_list_of_set rev False graph_loop = Inr True \<and>
   edges graph12 = {} \<and> (0 :: nat) < 1 \<and>
   is_cyclic 1 sorted_list_of_set rev True graph12 = Inr False"
proof -
  have t: "tarjans 2 sorted_list_of_set rev True graph_cycle2 = Inr [[1, 2]]"
    by code_simp
  have l: "length [[1, 2 :: nat]] < len_graph graph_cycle2"
    by (simp add: len_graph_def vertices_graph_cycle2)
  have dl: "direct_cyclic graph_loop"
    by (simp add: graph_loop_def add_vertex_def add_edge_def contains_graph_def
        DAGraph_init_def DAGraphVertex_init_def)
  have e: "edges graph12 = {}"
    by (auto simp: edges_def succs_def graph12_eq split: if_splits)
  note c1 = C1_is_cyclic [where g = graph_cycle2 and shuffle = rev and d = 2 and use_rng = True,
      OF wf_graph_cycle2 set_order_sorted_list mset_rev_items]
  note c2 = C1_is_cyclic [where g = graph_loop and shuffle = rev and d = 0 and use_rng = False,
      OF wf_graph_loop set_order_sorted_list mset_rev_items]
  note c3 = C1_is_cyclic [where g = graph12 and shuffle = rev and d = 1 and use_rng = True,
      OF wf_graph12 set_order_sorted_list mset_rev_items]
  have a: "is_cyclic 2 sorted_list_of_set rev True graph_cycle2 = Inr True"
    using c1 t l by blast
  have b: "is_cyclic 0 sorted_list_of_set rev False graph_loop = Inr True"
    using c2 dl by blast
  have c: "is_cyclic 1 sorted_list_of_set rev True graph12 = Inr False"
    using c3 e by simp
  show ?thesis
    using wf_graph_cycle2 set_order_sorted_list mset_rev_items [of graph_cycle2] t l a dl b e c
    by simp
qed

text \<open>
  With enough recursion depth, \<^verbatim>\<open>is_cyclic\<close> returns whether the graph has a cycle.
\<close>

lemma is_cyclic_iff_cycle:
  assumes wf: "wf_graph g" and ord: "set_order iter"
    and perm: "mset (shuffle (items g)) = mset (items g)" and d: "len_graph g \<le> d"
  shows "is_cyclic d iter shuffle use_rng g = Inr (\<exists>v. (v, v) \<in> (edges g)\<^sup>+)"
proof (cases "direct_cyclic g")
  case True
  then obtain k where "(k, k) \<in> edges g" using wf_graph_direct_cyclic [OF wf] by blast
  then have "\<exists>v. (v, v) \<in> (edges g)\<^sup>+" by blast
  then show ?thesis using True by (simp add: is_cyclic_def)
next
  case False
  let ?E = "edges g"
  have nl: "\<And>k. (k, k) \<notin> ?E" using False wf_graph_direct_cyclic [OF wf] by blast
  obtain l where l: "tarjans d iter shuffle use_rng g = Inr l"
    using tarjans_returns [where shuffle = shuffle and use_rng = use_rng, OF wf ord perm d]
    by blast
  note R = tarjans_result [where shuffle = shuffle, OF wf ord perm l]
  have p: "set (shuffle (items g)) = set (items g)" using perm by (rule mset_eq_setD)
  have dc: "distinct (concat l)"
    using tarjans_correct [where shuffle = shuffle and d = d and use_rng = use_rng, OF wf ord p]
    unfolding l sum.case by blast
  have dist: "\<And>c. c \<in> set l \<Longrightarrow> distinct c" using dc by (auto simp: distinct_concat_iff)
  have "(\<exists>c\<in>set l. 1 < length c) \<longleftrightarrow> (\<exists>v. (v, v) \<in> ?E\<^sup>+)"
  proof
    assume "\<exists>c\<in>set l. 1 < length c"
    then obtain c where c: "c \<in> set l" "1 < length c" by blast
    then have "set c \<in> sccs g" using R(1) by auto
    then obtain v where v: "set c = scc_of ?E v" by (auto simp: sccs_def)
    have "1 < card (set c)" using dist [OF c(1)] c(2) by (simp add: distinct_card)
    then obtain u w where uw: "u \<in> set c" "w \<in> set c" "u \<noteq> w"
      by (metis card_le_Suc0_iff_eq List.finite_set not_less One_nat_def)
    then have u: "(v, u) \<in> ?E\<^sup>*" "(u, v) \<in> ?E\<^sup>*"
      and w: "(v, w) \<in> ?E\<^sup>*" "(w, v) \<in> ?E\<^sup>*"
      unfolding v scc_of_def by simp_all
    have uw': "(u, w) \<in> ?E\<^sup>*" using u(2) w(1) by (rule rtrancl_trans)
    have wu: "(w, u) \<in> ?E\<^sup>*" using w(2) u(1) by (rule rtrancl_trans)
    have "(u, w) \<in> ?E\<^sup>+" using uw' uw(3) by (metis rtranclD)
    then have "(u, u) \<in> ?E\<^sup>+" using wu by (rule trancl_rtrancl_trancl)
    then show "\<exists>v. (v, v) \<in> ?E\<^sup>+" by blast
  next
    assume "\<exists>v. (v, v) \<in> ?E\<^sup>+"
    then obtain v where "(v, v) \<in> ?E\<^sup>+" by blast
    then obtain z where z: "(v, z) \<in> ?E" "(z, v) \<in> ?E\<^sup>*" by (auto dest: tranclD)
    have zv: "z \<noteq> v" using z(1) nl by auto
    have "succs (vertices g) v \<noteq> {}" using z(1) by (auto simp: edges_def)
    then have "map_of (vertices g) v \<noteq> None" by (auto simp: succs_def)
    then have "v \<in> set (items g)" by (auto simp: items_def map_of_eq_None_iff)
    then have "scc_of ?E v \<in> set ` set l" unfolding R(1) sccs_def by blast
    then obtain c where c: "c \<in> set l" "set c = scc_of ?E v" by auto
    have "v \<in> set c" "z \<in> set c" unfolding c(2) using z by (auto simp: scc_of_def)
    then have "1 < card (set c)" using zv
      by (metis card_le_Suc0_iff_eq List.finite_set not_less One_nat_def)
    then have "1 < length c" using dist [OF c(1)] by (simp add: distinct_card)
    then show "\<exists>c\<in>set l. 1 < length c" using c(1) by blast
  qed
  then have "(length l \<noteq> len_graph g) = (\<exists>v. (v, v) \<in> ?E\<^sup>+)"
    using R(3,4) by auto
  then show ?thesis using False l by (simp add: is_cyclic_def)
qed

text \<open>
  C4 (as amended). For every graph built through the interface: two runs of
  \<^verbatim>\<open>tarjans\<close> that both return (whatever the flag, the permutation the shuffle produces
  and the iteration orders of the sets) return the same partition of the vertices, with
  the same number of components; two runs of \<^verbatim>\<open>is_cyclic\<close> that both return give the
  same boolean; a run returns whenever the recursion limit allows as many nested
  activations of \<^verbatim>\<open>strongconnect\<close> as the graph has vertices, so that two such runs
  have equal results.
\<close>

theorem C4_order_invariance:
  assumes "wf_graph g" and "set_order iter1" and "set_order iter2"
    and "mset (shuffle1 (items g)) = mset (items g)"
    and "mset (shuffle2 (items g)) = mset (items g)"
  shows "(tarjans d1 iter1 shuffle1 rng1 g = Inr l1 \<and> tarjans d2 iter2 shuffle2 rng2 g = Inr l2
            \<longrightarrow> set ` set l1 = set ` set l2 \<and> length l1 = length l2) \<and>
         (is_cyclic d1 iter1 shuffle1 rng1 g = Inr b1 \<and> is_cyclic d2 iter2 shuffle2 rng2 g = Inr b2
            \<longrightarrow> b1 = b2) \<and>
         (len_graph g \<le> d1 \<longrightarrow>
            (\<exists>l. tarjans d1 iter1 shuffle1 rng1 g = Inr l) \<and>
            (\<exists>b. is_cyclic d1 iter1 shuffle1 rng1 g = Inr b)) \<and>
         (len_graph g \<le> d1 \<and> len_graph g \<le> d2 \<longrightarrow>
            is_cyclic d1 iter1 shuffle1 rng1 g = is_cyclic d2 iter2 shuffle2 rng2 g)"
proof (intro conjI impI)
  note R1 = tarjans_result [where shuffle = shuffle1, OF assms(1,2,4)]
  note R2 = tarjans_result [where shuffle = shuffle2, OF assms(1,3,5)]
  have same: "length l = length l'"
    if "tarjans d1 iter1 shuffle1 rng1 g = Inr l" "tarjans d2 iter2 shuffle2 rng2 g = Inr l'"
    for l l'
    using R1(2) [OF that(1)] R2(2) [OF that(2)] by simp
  show "set ` set l1 = set ` set l2"
    if c: "tarjans d1 iter1 shuffle1 rng1 g = Inr l1 \<and> tarjans d2 iter2 shuffle2 rng2 g = Inr l2"
  proof -
    have c1: "tarjans d1 iter1 shuffle1 rng1 g = Inr l1"
      and c2: "tarjans d2 iter2 shuffle2 rng2 g = Inr l2" using c by simp_all
    show ?thesis unfolding R1(1) [OF c1] R2(1) [OF c2] ..
  qed
  show "length l1 = length l2"
    if c: "tarjans d1 iter1 shuffle1 rng1 g = Inr l1 \<and> tarjans d2 iter2 shuffle2 rng2 g = Inr l2"
  proof -
    have c1: "tarjans d1 iter1 shuffle1 rng1 g = Inr l1"
      and c2: "tarjans d2 iter2 shuffle2 rng2 g = Inr l2" using c by simp_all
    show ?thesis using c1 c2 by (rule same)
  qed
  show "b1 = b2"
    if c: "is_cyclic d1 iter1 shuffle1 rng1 g = Inr b1 \<and> is_cyclic d2 iter2 shuffle2 rng2 g = Inr b2"
  proof (cases "direct_cyclic g")
    case True
    then show ?thesis using c by (simp add: is_cyclic_def)
  next
    case False
    from c False obtain l where l: "tarjans d1 iter1 shuffle1 rng1 g = Inr l"
      "b1 = (length l \<noteq> len_graph g)"
      unfolding is_cyclic_unfold by blast
    from c False obtain l' where l': "tarjans d2 iter2 shuffle2 rng2 g = Inr l'"
      "b2 = (length l' \<noteq> len_graph g)"
      unfolding is_cyclic_unfold by blast
    show ?thesis unfolding l(2) l'(2) same [OF l(1) l'(1)] ..
  qed
  show "\<exists>l. tarjans d1 iter1 shuffle1 rng1 g = Inr l" if "len_graph g \<le> d1"
    using tarjans_returns [where shuffle = shuffle1, OF assms(1,2,4) that] .
  show "\<exists>b. is_cyclic d1 iter1 shuffle1 rng1 g = Inr b" if c: "len_graph g \<le> d1"
    by (rule exI, rule is_cyclic_iff_cycle [where shuffle = shuffle1, OF assms(1,2,4) c])
  show "is_cyclic d1 iter1 shuffle1 rng1 g = is_cyclic d2 iter2 shuffle2 rng2 g"
    if c: "len_graph g \<le> d1 \<and> len_graph g \<le> d2"
  proof -
    have c1: "len_graph g \<le> d1" and c2: "len_graph g \<le> d2" using c by simp_all
    have e1: "is_cyclic d1 iter1 shuffle1 rng1 g = Inr (\<exists>v. (v, v) \<in> (edges g)\<^sup>+)"
      by (rule is_cyclic_iff_cycle [where shuffle = shuffle1, OF assms(1,2,4) c1])
    have e2: "is_cyclic d2 iter2 shuffle2 rng2 g = Inr (\<exists>v. (v, v) \<in> (edges g)\<^sup>+)"
      by (rule is_cyclic_iff_cycle [where shuffle = shuffle2, OF assms(1,3,5) c2])
    show ?thesis unfolding e1 e2 ..
  qed
qed

theorem C4_order_invariance_witness:
  "wf_graph graph_cycle2 \<and> set_order (sorted_list_of_set :: nat set \<Rightarrow> nat list) \<and>
   mset (rev (items graph_cycle2)) = mset (items graph_cycle2) \<and>
   tarjans 2 sorted_list_of_set rev False graph_cycle2 = Inr [[2, 1]] \<and>
   tarjans 2 sorted_list_of_set rev True graph_cycle2 = Inr [[1, 2]] \<and>
   set ` set [[2, 1 :: nat]] = set ` set [[1, 2]] \<and>
   length [[2, 1 :: nat]] = length [[1, 2 :: nat]] \<and>
   is_cyclic 2 sorted_list_of_set rev False graph_cycle2 = Inr True \<and>
   is_cyclic 2 sorted_list_of_set rev True graph_cycle2 = Inr True \<and>
   len_graph graph_cycle2 \<le> 2"
proof -
  have t1: "tarjans 2 sorted_list_of_set rev False graph_cycle2 = Inr [[2, 1]]"
    by code_simp
  have t2: "tarjans 2 sorted_list_of_set rev True graph_cycle2 = Inr [[1, 2]]"
    by code_simp
  have i1: "is_cyclic 2 sorted_list_of_set rev False graph_cycle2 = Inr True"
    by code_simp
  have l: "len_graph graph_cycle2 \<le> 2"
    by (simp add: len_graph_def vertices_graph_cycle2)
  note c = C4_order_invariance [where g = graph_cycle2 and ?shuffle1.0 = rev and ?shuffle2.0 = rev
      and ?d1.0 = 2 and ?d2.0 = 2 and ?rng1.0 = False and ?rng2.0 = True,
      OF wf_graph_cycle2 set_order_sorted_list set_order_sorted_list mset_rev_items mset_rev_items]
  note c1 = c [where ?l1.0 = "[[2, 1]]" and ?l2.0 = "[[1, 2]]"]
  have s: "set ` set [[2, 1 :: nat]] = set ` set [[1, 2]] \<and>
      length [[2, 1 :: nat]] = length [[1, 2 :: nat]]"
    using c1 t1 t2 by blast
  have "is_cyclic 2 sorted_list_of_set rev False graph_cycle2
      = is_cyclic 2 sorted_list_of_set rev True graph_cycle2"
    using c1 l by blast
  then have i2: "is_cyclic 2 sorted_list_of_set rev True graph_cycle2 = Inr True"
    using i1 by simp
  show ?thesis
    using wf_graph_cycle2 set_order_sorted_list mset_rev_items [of graph_cycle2] t1 t2 s i1 i2 l
    by (intro conjI) simp_all
qed

theorem C4_recursion_depth_counterexample:
  "is_cyclic 2 sorted_list_of_set rev False graph_chain3 = Inr False \<and>
   is_cyclic 2 sorted_list_of_set rev True graph_chain3 = Inl RecursionError"
  by code_simp

end
